theory Spec2Isabelle
  imports Complex_Main
begin

section \<open>JavaScript values\<close>

text \<open>
  The server of \<^verbatim>\<open>src/index.js\<close> handles values that \<^verbatim>\<open>JSON.parse\<close> produced from a
  client frame. A number is an IEEE double; the program only tests numbers for truthiness and
  uses them as keys of a \<^verbatim>\<open>Set\<close> and of the object \<^verbatim>\<open>currentPrices\<close>, so a number is kept as
  its mathematical value: a finite value (both zeros are \<open>JFinite 0\<close>, which is how the
  \<^verbatim>\<open>Set\<close> and the property key \<^verbatim>\<open>"0"\<close> see them), the two infinities, or NaN.
\<close>

datatype jsnum = JFinite rat | JPosInf | JNegInf | JNaN

datatype jsval =
    JUndefined
  | JNull
  | JBool bool
  | JNum jsnum
  | JStr string
  | JArr "jsval list"
  | JObj "(string \<times> jsval) list"

datatype js_error = TypeError | SyntaxError | SendError

text \<open>Truthiness, as \<^verbatim>\<open>!x\<close>, \<^verbatim>\<open>x && y\<close> and \<^verbatim>\<open>x || y\<close> test it.\<close>

fun truthy :: "jsval \<Rightarrow> bool" where
  "truthy JUndefined = False"
| "truthy JNull = False"
| "truthy (JBool b) = b"
| "truthy (JNum n) = (n \<noteq> JFinite 0 \<and> n \<noteq> JNaN)"
| "truthy (JStr s) = (s \<noteq> [])"
| "truthy (JArr xs) = True"
| "truthy (JObj fs) = True"

text \<open>
  Reading a property \<^verbatim>\<open>v.k\<close>. On \<^verbatim>\<open>null\<close> and \<^verbatim>\<open>undefined\<close> the read throws a TypeError;
  on an object it is the own property or \<^verbatim>\<open>undefined\<close>; on every other value it is
  \<^verbatim>\<open>undefined\<close> for the keys this program reads (\<^verbatim>\<open>type\<close>, \<^verbatim>\<open>subscriptions\<close>,
  \<^verbatim>\<open>subscriptionId\<close>, \<^verbatim>\<open>feedIds\<close>, \<^verbatim>\<open>feedId\<close>), none of which a prototype defines.
\<close>

fun get_prop :: "jsval \<Rightarrow> string \<Rightarrow> js_error + jsval" where
  "get_prop JUndefined k = Inl TypeError"
| "get_prop JNull k = Inl TypeError"
| "get_prop (JObj fs) k = Inr (case map_of fs k of None \<Rightarrow> JUndefined | Some v \<Rightarrow> v)"
| "get_prop v k = Inr JUndefined"

fun isArray :: "jsval \<Rightarrow> bool" where
  "isArray (JArr xs) = True"
| "isArray v = False"

section \<open>The insertion-ordered Map\<close>

text \<open>
  \<^verbatim>\<open>subscriptions\<close> is a \<^verbatim>\<open>Map\<close>: an association list in insertion order with one entry
  per key. \<^verbatim>\<open>set\<close> on a present key replaces the value in place, on an absent key appends.
\<close>

fun Map_set :: "'k \<Rightarrow> 'v \<Rightarrow> ('k \<times> 'v) list \<Rightarrow> ('k \<times> 'v) list" where
  "Map_set k v [] = [(k, v)]"
| "Map_set k v ((k', v') # es) = (if k' = k then (k, v) # es else (k', v') # Map_set k v es)"

fun Map_delete :: "'k \<Rightarrow> ('k \<times> 'v) list \<Rightarrow> ('k \<times> 'v) list" where
  "Map_delete k [] = []"
| "Map_delete k ((k', v') # es) = (if k' = k then Map_delete k es else (k', v') # Map_delete k es)"

fun Map_get :: "('k \<times> 'v) list \<Rightarrow> 'k \<Rightarrow> 'v option" where
  "Map_get [] k = None"
| "Map_get ((k', v') # es) k = (if k' = k then Some v' else Map_get es k)"

text \<open>Mutating, in place, the object that is the value of a key.\<close>

fun Map_modify :: "'k \<Rightarrow> ('v \<Rightarrow> 'v) \<Rightarrow> ('k \<times> 'v) list \<Rightarrow> ('k \<times> 'v) list" where
  "Map_modify k f [] = []"
| "Map_modify k f ((k', v') # es) =
     (if k' = k then (k', f v') # es else (k', v') # Map_modify k f es)"

section \<open>State of the server and of its environment\<close>

text \<open>
  A connection is the socket object \<^verbatim>\<open>ws\<close>; the model names it by a number. A \<^verbatim>\<open>Date\<close> is
  an instant, a natural number.
\<close>

type_synonym ws = nat
type_synonym date = nat

datatype ready_state = CONNECTING | OPEN | CLOSING | CLOSED

record client_data =
  clientId :: nat
  subscribedFeeds :: "jsnum set"
  connectedAt :: date

datatype error_text =
    InvalidJSONFormat
  | UnknownMessageType jsval
  | InvalidSubscriptionFormat
  | InvalidUnsubscriptionFormat

text \<open>
  The objects handed to \<^verbatim>\<open>JSON.stringify\<close> and then to \<^verbatim>\<open>ws.send\<close>. \<open>PriceUpdate t us\<close> has
  \<^verbatim>\<open>timestamp\<close> \<open>t\<close> and \<^verbatim>\<open>updates\<close> \<open>us\<close>, a list of (\<^verbatim>\<open>feedId\<close>, \<^verbatim>\<open>price\<close>) with the
  price a string.
\<close>

datatype out_msg =
    Connected nat
  | PriceUpdate date "(jsnum \<times> string) list"
  | Subscribed jsval "jsnum list"
  | Unsubscribed "jsval list"
  | Pong date
  | Error error_text

text \<open>
  The state has the three variables of the module (\<^verbatim>\<open>subscriptions\<close>, \<^verbatim>\<open>connectionId\<close>,
  \<^verbatim>\<open>currentPrices\<close>), and the environment the code reads and acts on:
  \<^item> \<open>readyState\<close>: the \<^verbatim>\<open>readyState\<close> of every socket, set by the transport;
  \<^item> \<open>sendThrows\<close>: whether the k-th call of \<^verbatim>\<open>ws.send\<close> throws (any sequence of
    outcomes is possible);
  \<^item> \<open>clock\<close>: what the k-th \<^verbatim>\<open>new Date()\<close> returns;
  \<^item> \<open>toString\<close>: \<^verbatim>\<open>Number.prototype.toString\<close>, the decimal string of a number;
  \<^item> \<open>sendLog\<close>: every call of \<^verbatim>\<open>ws.send\<close> so far, as (socket, returned normally, message);
  \<^item> \<open>dateCalls\<close>: the number of calls of \<^verbatim>\<open>new Date()\<close> so far.
  The console output is not modelled.
\<close>

record state =
  subscriptions :: "(ws \<times> client_data) list"
  connectionId :: nat
  currentPrices :: "jsnum \<rightharpoonup> jsnum"
  readyState :: "ws \<Rightarrow> ready_state"
  sendThrows :: "nat \<Rightarrow> bool"
  clock :: "nat \<Rightarrow> date"
  toString :: "jsnum \<Rightarrow> string"
  sendLog :: "(ws \<times> bool \<times> out_msg) list"
  dateCalls :: nat

text \<open>
  A call either returns a value or throws; in both cases the state it leaves behind
  stays (JavaScript undoes nothing when an exception passes).
\<close>

type_synonym 'a result = "(js_error + 'a) \<times> state"

definition SOL_FEED_ID :: jsnum where
  "SOL_FEED_ID = JFinite 6"

definition new_Date :: "state \<Rightarrow> date \<times> state" where
  "new_Date s = (clock s (dateCalls s), s\<lparr>dateCalls := Suc (dateCalls s)\<rparr>)"

definition ws_send :: "ws \<Rightarrow> out_msg \<Rightarrow> state \<Rightarrow> unit result" where
  "ws_send w m s =
     (let throws = sendThrows s (length (sendLog s));
          s' = s\<lparr>sendLog := sendLog s @ [(w, \<not> throws, m)]\<rparr>
      in if throws then (Inl SendError, s') else (Inr (), s'))"

section \<open>broadcastPriceUpdate\<close>

text \<open>
  The callback of \<^verbatim>\<open>subscriptions.forEach\<close> deletes at most the entry it is visiting, so
  the entries visited are those of the map when the loop starts, in order.
\<close>

fun broadcast_forEach :: "out_msg \<Rightarrow> jsnum \<Rightarrow> (ws \<times> client_data) list \<Rightarrow> state \<Rightarrow> state" where
  "broadcast_forEach updateMessage feedId [] s = s"
| "broadcast_forEach updateMessage feedId ((w, clientData) # es) s =
     broadcast_forEach updateMessage feedId es
       (if readyState s w = OPEN \<and> feedId \<in> subscribedFeeds clientData then
          (case ws_send w updateMessage s of
             (Inr u, s') \<Rightarrow> s'
           | (Inl e, s') \<Rightarrow> s'\<lparr>subscriptions := Map_delete w (subscriptions s')\<rparr>)
        else s)"

definition broadcastPriceUpdate :: "jsnum \<Rightarrow> jsnum \<Rightarrow> state \<Rightarrow> state" where
  "broadcastPriceUpdate feedId price s =
     (let (t, s1) = new_Date s;
          updateMessage = PriceUpdate t [(feedId, toString s1 price)]
      in broadcast_forEach updateMessage feedId (subscriptions s1) s1)"

text \<open>
  One tick of the timer of \<^verbatim>\<open>simulatePriceUpdates\<close>: the new price is the rounded random
  step, a floating-point value the environment supplies here.
\<close>

definition simulatePriceUpdates_tick :: "jsnum \<Rightarrow> state \<Rightarrow> state" where
  "simulatePriceUpdates_tick newPrice s =
     broadcastPriceUpdate SOL_FEED_ID newPrice
       (s\<lparr>currentPrices := (currentPrices s)(SOL_FEED_ID \<mapsto> newPrice)\<rparr>)"

section \<open>Connection events\<close>

definition on_connection :: "ws \<Rightarrow> state \<Rightarrow> unit result" where
  "on_connection w s =
     (let cid = connectionId s + 1;
          s1 = s\<lparr>connectionId := cid\<rparr>;
          (t, s2) = new_Date s1;
          s3 = s2\<lparr>subscriptions :=
                 Map_set w \<lparr>clientId = cid, subscribedFeeds = {}, connectedAt = t\<rparr>
                   (subscriptions s2)\<rparr>
      in ws_send w (Connected cid) s3)"

definition on_close :: "ws \<Rightarrow> state \<Rightarrow> state" where
  "on_close w s = s\<lparr>subscriptions := Map_delete w (subscriptions s)\<rparr>"

definition on_error :: "ws \<Rightarrow> state \<Rightarrow> state" where
  "on_error w s = s\<lparr>subscriptions := Map_delete w (subscriptions s)\<rparr>"

section \<open>handleSubscription\<close>

text \<open>
  \<^verbatim>\<open>clientData\<close> is the object stored in the map under \<^verbatim>\<open>ws\<close>; \<^verbatim>\<open>add\<close> and \<^verbatim>\<open>delete\<close> on its
  set change the map's entry.
\<close>

definition feeds_add :: "ws \<Rightarrow> jsnum \<Rightarrow> state \<Rightarrow> state" where
  "feeds_add w n s =
     s\<lparr>subscriptions :=
         Map_modify w (\<lambda>cd. cd\<lparr>subscribedFeeds := insert n (subscribedFeeds cd)\<rparr>)
           (subscriptions s)\<rparr>"

definition feeds_delete :: "ws \<Rightarrow> jsnum \<Rightarrow> state \<Rightarrow> state" where
  "feeds_delete w n s =
     s\<lparr>subscriptions :=
         Map_modify w (\<lambda>cd. cd\<lparr>subscribedFeeds := subscribedFeeds cd - {n}\<rparr>)
           (subscriptions s)\<rparr>"

definition feeds_of :: "ws \<Rightarrow> state \<Rightarrow> jsnum set" where
  "feeds_of w s =
     (case Map_get (subscriptions s) w of None \<Rightarrow> {} | Some cd \<Rightarrow> subscribedFeeds cd)"

text \<open>
  The loop \<^verbatim>\<open>message.subscriptions.forEach(sub => ...)\<close>. It returns the exception that
  ended it, if any, the local array \<^verbatim>\<open>subscribedFeeds\<close> as it stands, and the state.
  The guard \<^verbatim>\<open>sub.feedId && typeof sub.feedId === 'number'\<close> holds for a number that is
  neither zero nor NaN.
\<close>

fun subscribe_forEach ::
  "ws \<Rightarrow> jsval list \<Rightarrow> jsnum list \<Rightarrow> state \<Rightarrow> js_error option \<times> jsnum list \<times> state" where
  "subscribe_forEach w [] acc s = (None, acc, s)"
| "subscribe_forEach w (sub # subs) acc s =
     (case get_prop sub ''feedId'' of
        Inl e \<Rightarrow> (Some e, acc, s)
      | Inr fid \<Rightarrow>
          (case fid of
             JNum n \<Rightarrow>
               if truthy fid then
                 (let s1 = feeds_add w n s; acc1 = acc @ [n]
                  in case currentPrices s1 n of
                       None \<Rightarrow> subscribe_forEach w subs acc1 s1
                     | Some p \<Rightarrow>
                         (let (t, s2) = new_Date s1
                          in case ws_send w (PriceUpdate t [(n, toString s2 p)]) s2 of
                               (Inr u, s3) \<Rightarrow> subscribe_forEach w subs acc1 s3
                             | (Inl e, s3) \<Rightarrow> (Some e, acc1, s3)))
               else subscribe_forEach w subs acc s
           | _ \<Rightarrow> subscribe_forEach w subs acc s))"

text \<open>
  \<^verbatim>\<open>!message.subscriptions || !Array.isArray(message.subscriptions)\<close> is false exactly
  for an array (every array is truthy), which is the \<open>JArr\<close> branch below.
\<close>

definition handleSubscription :: "ws \<Rightarrow> jsval \<Rightarrow> state \<Rightarrow> unit result" where
  "handleSubscription w message s =
     (case Map_get (subscriptions s) w of
        None \<Rightarrow> (Inr (), s)
      | Some clientData \<Rightarrow>
          (case get_prop message ''subscriptions'' of
             Inl e \<Rightarrow> (Inl e, s)
           | Inr v \<Rightarrow>
               (case v of
                  JArr subs \<Rightarrow>
                    (case subscribe_forEach w subs [] s of
                       (Some e, fs, s1) \<Rightarrow> (Inl e, s1)
                     | (None, fs, s1) \<Rightarrow>
                         (case get_prop message ''subscriptionId'' of
                            Inl e \<Rightarrow> (Inl e, s1)
                          | Inr sid \<Rightarrow>
                              ws_send w (Subscribed (if truthy sid then sid else JNull) fs) s1))
                | _ \<Rightarrow> ws_send w (Error InvalidSubscriptionFormat) s)))"

section \<open>handleUnsubscription\<close>

text \<open>
  \<^verbatim>\<open>Set.prototype.has\<close> on the set of a client, which holds numbers only: a value that is
  not a number is never in it.
\<close>

fun has :: "jsnum set \<Rightarrow> jsval \<Rightarrow> bool" where
  "has F (JNum n) = (n \<in> F)"
| "has F v = False"

fun feeds_delete_val :: "ws \<Rightarrow> jsval \<Rightarrow> state \<Rightarrow> state" where
  "feeds_delete_val w (JNum n) s = feeds_delete w n s"
| "feeds_delete_val w v s = s"

fun unsubscribe_forEach :: "ws \<Rightarrow> jsval list \<Rightarrow> jsval list \<Rightarrow> state \<Rightarrow> jsval list \<times> state" where
  "unsubscribe_forEach w [] acc s = (acc, s)"
| "unsubscribe_forEach w (feedId # rest) acc s =
     (if has (feeds_of w s) feedId
      then unsubscribe_forEach w rest (acc @ [feedId]) (feeds_delete_val w feedId s)
      else unsubscribe_forEach w rest acc s)"

definition handleUnsubscription :: "ws \<Rightarrow> jsval \<Rightarrow> state \<Rightarrow> unit result" where
  "handleUnsubscription w message s =
     (case Map_get (subscriptions s) w of
        None \<Rightarrow> (Inr (), s)
      | Some clientData \<Rightarrow>
          (case get_prop message ''feedIds'' of
             Inl e \<Rightarrow> (Inl e, s)
           | Inr v \<Rightarrow>
               (case v of
                  JArr feedIds \<Rightarrow>
                    (case unsubscribe_forEach w feedIds [] s of
                       (unsubscribedFeeds, s1) \<Rightarrow> ws_send w (Unsubscribed unsubscribedFeeds) s1)
                | _ \<Rightarrow> ws_send w (Error InvalidUnsubscriptionFormat) s)))"

section \<open>handleClientMessage and the message event\<close>

text \<open>
  The text of the \<^verbatim>\<open>default\<close> branch is the template literal
  \<^verbatim>\<open>`Unknown message type: ${message.type}`\<close>, which converts the type to a string before
  \<^verbatim>\<open>ws.send\<close> is called. On a value of \<^verbatim>\<open>JSON.parse\<close> the conversion throws a TypeError
  exactly when it reaches an object with an own property \<^verbatim>\<open>toString\<close>: no value of JSON is
  callable and \<^verbatim>\<open>Object.prototype.valueOf\<close> returns the object itself. It reaches the
  value and, through \<^verbatim>\<open>Array.prototype.join\<close>, the elements of an array (\<^verbatim>\<open>null\<close> is
  joined as the empty string).
\<close>

fun template_throws :: "jsval \<Rightarrow> bool" where
  "template_throws (JObj fs) = (map_of fs ''toString'' \<noteq> None)"
| "template_throws (JArr xs) = (\<exists>x \<in> set xs. template_throws x)"
| "template_throws v = False"

definition handleClientMessage :: "ws \<Rightarrow> jsval \<Rightarrow> state \<Rightarrow> unit result" where
  "handleClientMessage w message s =
     (case Map_get (subscriptions s) w of
        None \<Rightarrow> (Inr (), s)
      | Some clientData \<Rightarrow>
          (case get_prop message ''type'' of
             Inl e \<Rightarrow> (Inl e, s)
           | Inr ty \<Rightarrow>
               if ty = JStr ''subscribe'' then handleSubscription w message s
               else if ty = JStr ''unsubscribe'' then handleUnsubscription w message s
               else if ty = JStr ''ping'' then
                 (let (t, s1) = new_Date s in ws_send w (Pong t) s1)
               else if template_throws ty then (Inl TypeError, s)
               else ws_send w (Error (UnknownMessageType ty)) s))"

text \<open>
  The listener of \<^verbatim>\<open>'message'\<close>. The frame is given by what \<^verbatim>\<open>JSON.parse\<close> makes of it:
  \<open>None\<close> when it throws a SyntaxError. Whatever is thrown inside the \<^verbatim>\<open>try\<close> is answered with
  the error \<^verbatim>\<open>Invalid JSON format\<close>; that send is outside the \<^verbatim>\<open>try\<close>.
\<close>

definition on_message :: "ws \<Rightarrow> jsval option \<Rightarrow> state \<Rightarrow> unit result" where
  "on_message w parsed s =
     (case (case parsed of
              None \<Rightarrow> (Inl SyntaxError, s)
            | Some message \<Rightarrow> handleClientMessage w message s) of
        (Inr u, s1) \<Rightarrow> (Inr u, s1)
      | (Inl e, s1) \<Rightarrow> ws_send w (Error InvalidJSONFormat) s1)"

section \<open>Runs of the server\<close>

text \<open>
  The events of the event loop: the four socket events, a tick of the price timer, and a
  change of a socket's \<^verbatim>\<open>readyState\<close> by the transport. An exception that leaves a listener
  is uncaught and ends the process: the step has no next state.
\<close>

datatype event =
    Connection ws
  | Message ws "jsval option"
  | Close ws
  | SocketError ws
  | Tick jsnum
  | Transport ws ready_state

fun caught :: "unit result \<Rightarrow> state option" where
  "caught (Inr u, s) = Some s"
| "caught (Inl e, s) = None"

fun step :: "event \<Rightarrow> state \<Rightarrow> state option" where
  "step (Connection w) s = caught (on_connection w s)"
| "step (Message w parsed) s = caught (on_message w parsed s)"
| "step (Close w) s = Some (on_close w s)"
| "step (SocketError w) s = Some (on_error w s)"
| "step (Tick p) s = Some (simulatePriceUpdates_tick p s)"
| "step (Transport w r) s = Some (s\<lparr>readyState := (readyState s)(w := r)\<rparr>)"

fun run :: "event list \<Rightarrow> state \<Rightarrow> state option" where
  "run [] s = Some s"
| "run (e # es) s = (case step e s of None \<Rightarrow> None | Some s' \<Rightarrow> run es s')"

definition registered :: "ws \<Rightarrow> state \<Rightarrow> bool" where
  "registered w s = (Map_get (subscriptions s) w \<noteq> None)"

section \<open>Notions used in the statements\<close>

subsection \<open>The calls of ws.send\<close>

text \<open>
  The calls of \<^verbatim>\<open>ws.send\<close> made between two states, and a call without its outcome and
  without the wall-clock \<^verbatim>\<open>timestamp\<close> of its message.
\<close>

definition new_calls :: "state \<Rightarrow> state \<Rightarrow> (ws \<times> bool \<times> out_msg) list" where
  "new_calls s s' = drop (length (sendLog s)) (sendLog s')"

fun untimed :: "out_msg \<Rightarrow> out_msg" where
  "untimed (PriceUpdate t us) = PriceUpdate 0 us"
| "untimed (Pong t) = Pong 0"
| "untimed m = m"

definition untimed_call :: "ws \<times> bool \<times> out_msg \<Rightarrow> ws \<times> out_msg" where
  "untimed_call c = (fst c, untimed (snd (snd c)))"

text \<open>
  The calls that sending \<open>m\<close> to the sockets \<open>ws\<close>, one after the other, adds to the log of
  \<open>s\<close>: the k-th call of the server returns normally unless \<open>sendThrows s k\<close>.
\<close>

definition send_calls :: "state \<Rightarrow> out_msg \<Rightarrow> ws list \<Rightarrow> (ws \<times> bool \<times> out_msg) list" where
  "send_calls s m ws =
     map (\<lambda>(k, w). (w, \<not> sendThrows s k, m)) (enumerate (length (sendLog s)) ws)"

text \<open>What a handler leaves alone, and how the log grows.\<close>

definition same_environment :: "state \<Rightarrow> state \<Rightarrow> bool" where
  "same_environment s s' \<longleftrightarrow>
     connectionId s' = connectionId s \<and> currentPrices s' = currentPrices s \<and>
     readyState s' = readyState s \<and> sendThrows s' = sendThrows s \<and> clock s' = clock s \<and>
     toString s' = toString s"

definition log_grows :: "state \<Rightarrow> state \<Rightarrow> bool" where
  "log_grows s s' \<longleftrightarrow> (\<exists>cs. sendLog s' = sendLog s @ cs)"

definition grows :: "state \<Rightarrow> state \<Rightarrow> bool" where
  "grows s s' \<longleftrightarrow> (\<exists>cs. sendLog s' = sendLog s @ cs) \<and> same_environment s s'"

subsection \<open>Subscribing and unsubscribing\<close>

text \<open>Changes of the feed set of a client.\<close>

definition feeds_union :: "jsnum set \<Rightarrow> client_data \<Rightarrow> client_data" where
  "feeds_union F cd = cd\<lparr>subscribedFeeds := subscribedFeeds cd \<union> F\<rparr>"

definition feeds_minus :: "jsnum set \<Rightarrow> client_data \<Rightarrow> client_data" where
  "feeds_minus F cd = cd\<lparr>subscribedFeeds := subscribedFeeds cd - F\<rparr>"

definition feeds_change :: "jsnum set \<Rightarrow> jsnum set \<Rightarrow> client_data \<Rightarrow> client_data" where
  "feeds_change A R cd = cd\<lparr>subscribedFeeds := (subscribedFeeds cd \<union> A) - R\<rparr>"

definition numbers_of :: "jsval list \<Rightarrow> jsnum set" where
  "numbers_of vs = {n. JNum n \<in> set vs}"

text \<open>
  The \<^verbatim>\<open>subscriptionId\<close> of a request (\<^verbatim>\<open>undefined\<close> when absent) and the value
  \<^verbatim>\<open>message.subscriptionId || null\<close> of the acknowledgment.
\<close>

definition request_subscriptionId :: "jsval \<Rightarrow> jsval" where
  "request_subscriptionId message =
     (case get_prop message ''subscriptionId'' of Inl e \<Rightarrow> JUndefined | Inr v \<Rightarrow> v)"

definition acknowledged_id :: "jsval \<Rightarrow> jsval" where
  "acknowledged_id message =
     (if truthy (request_subscriptionId message) then request_subscriptionId message else JNull)"

text \<open>
  The guard of the \<^verbatim>\<open>subscribe\<close> loop on one element, and the feed IDs a list of elements
  yields when every element passes through the guard, in the order of the list.
\<close>

definition accepted_feedId :: "jsval \<Rightarrow> jsnum option" where
  "accepted_feedId sub =
     (case get_prop sub ''feedId'' of
        Inr (JNum n) \<Rightarrow> if n \<noteq> JFinite 0 \<and> n \<noteq> JNaN then Some n else None
      | _ \<Rightarrow> None)"

definition accepted :: "jsval list \<Rightarrow> jsnum list" where
  "accepted subs = List.map_filter accepted_feedId subs"

text \<open>
  The spec's words for a syntactically valid feed ID: a positive integer. The code's guard
  is \<open>accepted_feedId\<close> above.
\<close>

fun spec_valid_feed_id :: "jsnum \<Rightarrow> bool" where
  "spec_valid_feed_id (JFinite r) = (0 < r \<and> of_int \<lfloor>r\<rfloor> = r)"
| "spec_valid_feed_id n = False"

text \<open>
  The snapshot \<^verbatim>\<open>priceUpdate\<close> for a feed that \<^verbatim>\<open>currentPrices\<close> has a value for, and the
  feeds of a list that have one.
\<close>

definition snapshot :: "ws \<Rightarrow> state \<Rightarrow> jsnum \<Rightarrow> ws \<times> out_msg" where
  "snapshot w s n = (w, PriceUpdate 0 [(n, toString s (the (currentPrices s n)))])"

definition priced :: "state \<Rightarrow> jsnum list \<Rightarrow> jsnum list" where
  "priced s fs = filter (\<lambda>n. currentPrices s n \<noteq> None) fs"

text \<open>An \<^verbatim>\<open>unsubscribe\<close> request that lists the feed \<open>f\<close>.\<close>

definition unsubscribes :: "jsval \<Rightarrow> jsnum \<Rightarrow> bool" where
  "unsubscribes message f =
     (get_prop message ''type'' = Inr (JStr ''unsubscribe'') \<and>
      (case get_prop message ''feedIds'' of
         Inr (JArr ids) \<Rightarrow> JNum f \<in> set ids
       | _ \<Rightarrow> False))"

subsection \<open>The broadcast\<close>

text \<open>
  The test of the loop of \<^verbatim>\<open>broadcastPriceUpdate\<close> on an entry, the sockets that pass it,
  in the order of the registry, and the message of a broadcast. The source has no function
  \<^verbatim>\<open>subscribersOf\<close>: the registry lookup that the spec calls so is the second half of that
  test, the feed being in the connection's set.
\<close>

definition wants :: "jsnum \<Rightarrow> state \<Rightarrow> ws \<times> client_data \<Rightarrow> bool" where
  "wants feedId s e = (readyState s (fst e) = OPEN \<and> feedId \<in> subscribedFeeds (snd e))"

definition recipients :: "jsnum \<Rightarrow> state \<Rightarrow> ws list" where
  "recipients feedId s = map fst (filter (wants feedId s) (subscriptions s))"

definition subscribersOf :: "jsnum \<Rightarrow> state \<Rightarrow> ws list" where
  "subscribersOf feedId s =
     map fst (filter (\<lambda>e. feedId \<in> subscribedFeeds (snd e)) (subscriptions s))"

definition update_message :: "jsnum \<Rightarrow> jsnum \<Rightarrow> state \<Rightarrow> out_msg" where
  "update_message feedId price s = PriceUpdate (clock s (dateCalls s)) [(feedId, toString s price)]"

subsection \<open>Removal by a broadcast\<close>

text \<open>
  A call of \<^verbatim>\<open>ws.send\<close> to \<open>w\<close> threw between two states; the step \<open>e\<close> from \<open>s\<close> to
  \<open>s'\<close> is a broadcast in which the send to \<open>w\<close> threw (the one place where a failed send
  deletes the entry: a send that throws in a handler of the \<^verbatim>\<open>'message'\<close> event does not);
  and some step of the run of \<open>es\<close> from \<open>s\<close> is such a broadcast.
\<close>

definition send_threw :: "ws \<Rightarrow> state \<Rightarrow> state \<Rightarrow> bool" where
  "send_threw w s s' = ((w, False) \<in> set (map (\<lambda>c. (fst c, fst (snd c))) (new_calls s s')))"

fun broadcast_failed :: "ws \<Rightarrow> event \<Rightarrow> state \<Rightarrow> state \<Rightarrow> bool" where
  "broadcast_failed w (Tick p) s s' = send_threw w s s'"
| "broadcast_failed w e s s' = False"

fun pruned_in :: "ws \<Rightarrow> event list \<Rightarrow> state \<Rightarrow> bool" where
  "pruned_in w [] s = False"
| "pruned_in w (e # es) s =
     (case step e s of
        None \<Rightarrow> False
      | Some s' \<Rightarrow> broadcast_failed w e s s' \<or> pruned_in w es s')"

section \<open>Example states, requests and runs\<close>

text \<open>
  The state of the module when the server starts, in an environment where every socket is
  \<^verbatim>\<open>OPEN\<close>, no send throws, the k-th \<^verbatim>\<open>Date\<close> is the instant k, and the decimal strings of
  the two prices of the examples are as JavaScript prints them.
\<close>

definition sample_toString :: "jsnum \<Rightarrow> string" where
  "sample_toString n =
     (if n = JFinite 200 then ''200'' else if n = JFinite (24567 / 100) then ''245.67'' else ''0'')"

definition server_start :: state where
  "server_start =
     \<lparr>subscriptions = [], connectionId = 0,
      currentPrices = [SOL_FEED_ID \<mapsto> JFinite (24567 / 100)],
      readyState = (\<lambda>w. OPEN), sendThrows = (\<lambda>k. False), clock = (\<lambda>k. k),
      toString = sample_toString, sendLog = [], dateCalls = 0\<rparr>"

text \<open>After the connection of socket 1; then with socket 1 subscribed to the SOL feed.\<close>

definition one_client :: state where
  "one_client =
     server_start\<lparr>subscriptions := [(1, \<lparr>clientId = 1, subscribedFeeds = {}, connectedAt = 0\<rparr>)],
       connectionId := 1, sendLog := [(1, True, Connected 1)], dateCalls := 1\<rparr>"

definition sol_subscriber :: state where
  "sol_subscriber =
     server_start\<lparr>subscriptions :=
         [(1, \<lparr>clientId = 1, subscribedFeeds = {SOL_FEED_ID}, connectedAt = 0\<rparr>)],
       connectionId := 1, sendLog := [(1, True, Connected 1)], dateCalls := 1\<rparr>"

text \<open>The same when the transport has the socket closing, or closed, before its close event.\<close>

definition closing_subscriber :: state where
  "closing_subscriber = sol_subscriber\<lparr>readyState := (\<lambda>w. CLOSING)\<rparr>"

definition closed_subscriber :: state where
  "closed_subscriber = sol_subscriber\<lparr>readyState := (\<lambda>w. CLOSED)\<rparr>"

text \<open>
  Three connections, the first two subscribed to the SOL feed, where the next call of
  \<^verbatim>\<open>ws.send\<close> throws and the later ones do not.
\<close>

definition two_subscribers :: state where
  "two_subscribers =
     server_start\<lparr>subscriptions :=
         [(1, \<lparr>clientId = 1, subscribedFeeds = {SOL_FEED_ID}, connectedAt = 0\<rparr>),
          (2, \<lparr>clientId = 2, subscribedFeeds = {SOL_FEED_ID}, connectedAt = 1\<rparr>),
          (3, \<lparr>clientId = 3, subscribedFeeds = {}, connectedAt = 2\<rparr>)],
       connectionId := 3, dateCalls := 3, sendLog := [],
       sendThrows := (\<lambda>k. k = 0)\<rparr>"

definition subscribe_request :: "jsval \<Rightarrow> jsval list \<Rightarrow> jsval" where
  "subscribe_request sid subs =
     JObj [(''type'', JStr ''subscribe''), (''subscriptionId'', sid), (''subscriptions'', JArr subs)]"

definition feed_entry :: "jsnum \<Rightarrow> jsval" where
  "feed_entry n = JObj [(''feedId'', JNum n)]"

definition unsubscribe_request :: "jsval list \<Rightarrow> jsval" where
  "unsubscribe_request ids = JObj [(''type'', JStr ''unsubscribe''), (''feedIds'', JArr ids)]"

text \<open>
  Socket 1 subscribed to the SOL feed, where the next call of \<^verbatim>\<open>ws.send\<close> throws and the
  later ones do not; a \<^verbatim>\<open>ping\<close> request; and the run in which the pong to socket 1 throws
  and a broadcast follows.
\<close>

definition failing_pong :: state where
  "failing_pong = sol_subscriber\<lparr>sendThrows := (\<lambda>k. k = 1)\<rparr>"

definition ping_request :: jsval where
  "ping_request = JObj [(''type'', JStr ''ping'')]"

definition failed_pong_run :: "event list" where
  "failed_pong_run = [Message 1 (Some ping_request), Tick (JFinite 200)]"

definition quiet_run :: "event list" where
  "quiet_run = [Tick (JFinite 200), Transport 1 CLOSING, Tick (JFinite 200)]"

section \<open>Facts about the Map\<close>

lemma Map_delete_filter: "Map_delete k es = filter (\<lambda>e. fst e \<noteq> k) es"
  by (induction es) auto

lemma Map_get_None_iff: "Map_get es k = None \<longleftrightarrow> k \<notin> fst ` set es"
  by (induction es) (auto split: if_splits)

lemma Map_delete_idem: "Map_delete k (Map_delete k es) = Map_delete k es"
  by (simp add: Map_delete_filter)

lemma Map_get_delete: "Map_get (Map_delete k es) k' = (if k' = k then None else Map_get es k')"
  by (induction es) auto

lemma Map_get_modify:
  "Map_get (Map_modify k f es) k' = (if k' = k then map_option f (Map_get es k) else Map_get es k')"
  by (induction es) auto

lemma Map_get_set: "Map_get (Map_set k v es) k' = (if k' = k then Some v else Map_get es k')"
  by (induction es) auto

lemma keys_Map_modify: "map fst (Map_modify k f es) = map fst es"
  by (induction es) auto

lemma Map_modify_modify:
  "Map_modify k f (Map_modify k g es) = Map_modify k (f \<circ> g) es"
  by (induction es) auto

lemma Map_modify_id: "(\<And>v. f v = v) \<Longrightarrow> Map_modify k f es = es"
  by (induction es) auto

section \<open>The loop of handleSubscription\<close>

text \<open>
  What the loop over the elements of a \<^verbatim>\<open>subscribe\<close> request leaves, however it ends: the IDs it
  pushed were added to the set of the client, the environment is as before, and the calls it
  made are the snapshots of the pushed IDs that have a price.
\<close>

lemma subscribe_forEach_spec:
  "subscribe_forEach w subs acc s = (exn, fs, s') \<Longrightarrow>
     \<exists>fs'. fs = acc @ fs' \<and>
       subscriptions s' = Map_modify w (feeds_union (set fs')) (subscriptions s) \<and>
       same_environment s s' \<and> length (sendLog s) \<le> length (sendLog s') \<and>
       take (length (sendLog s)) (sendLog s') = sendLog s \<and>
       map untimed_call (new_calls s s') = map (snapshot w s) (priced s fs')"
proof (induction subs arbitrary: acc s)
  case Nil
  then show ?case
    by (auto simp: same_environment_def new_calls_def priced_def feeds_union_def Map_modify_id)
next
  case (Cons sub subs)
  show ?case
  proof (cases "get_prop sub ''feedId''")
    case (Inl e)
    with Cons.prems show ?thesis
      by (auto simp: same_environment_def new_calls_def priced_def feeds_union_def Map_modify_id)
  next
    case (Inr fid)
    show ?thesis
    proof (cases "\<exists>n. fid = JNum n \<and> truthy fid")
      case False
      with Inr Cons.prems have "subscribe_forEach w subs acc s = (exn, fs, s')"
        by (auto split: jsval.splits if_splits)
      from Cons.IH[OF this] show ?thesis .
    next
      case True
      then obtain n where n: "fid = JNum n" "truthy (JNum n)" by auto
      define s1 where "s1 = feeds_add w n s"
      have s1: "subscriptions s1 = Map_modify w (feeds_union {n}) (subscriptions s)"
        "same_environment s s1" "sendLog s1 = sendLog s" "dateCalls s1 = dateCalls s"
        unfolding s1_def feeds_add_def feeds_union_def same_environment_def by simp_all
      show ?thesis
      proof (cases "currentPrices s n")
        case None
        with Inr n Cons.prems s1 have "subscribe_forEach w subs (acc @ [n]) s1 = (exn, fs, s')"
          by (simp add: s1_def[symmetric] same_environment_def)
        from Cons.IH[OF this] obtain fs' where
          fs': "fs = (acc @ [n]) @ fs'"
          "subscriptions s' = Map_modify w (feeds_union (set fs')) (subscriptions s1)"
          "same_environment s1 s'" "length (sendLog s1) \<le> length (sendLog s')"
          "take (length (sendLog s1)) (sendLog s') = sendLog s1"
          "map untimed_call (new_calls s1 s') = map (snapshot w s1) (priced s1 fs')"
          by blast
        have comp: "feeds_union (set fs') \<circ> feeds_union {n} = feeds_union (set (n # fs'))"
          by (auto simp: feeds_union_def fun_eq_iff)
        have "fs = acc @ (n # fs')" using fs' by simp
        moreover have "subscriptions s' = Map_modify w (feeds_union (set (n # fs'))) (subscriptions s)"
          using fs'(2) s1(1) by (simp only: Map_modify_modify comp)
        moreover have "same_environment s s'"
          using s1(2) fs'(3) by (simp add: same_environment_def)
        moreover have "map untimed_call (new_calls s s') = map (snapshot w s) (priced s (n # fs'))"
          using fs'(6) s1 None
          by (simp add: new_calls_def priced_def snapshot_def same_environment_def)
        ultimately show ?thesis using fs'(4,5) s1(3) by auto
      next
        case (Some p)
        define t where "t = clock s (dateCalls s)"
        define s2 where "s2 = s1\<lparr>dateCalls := Suc (dateCalls s)\<rparr>"
        define m where "m = PriceUpdate t [(n, toString s2 p)]"
        have m_eq: "m = PriceUpdate t [(n, toString s p)]"
          using s1(2) unfolding m_def s2_def same_environment_def by simp
        define ok where "ok = (\<not> sendThrows s (length (sendLog s)))"
        define s3 where "s3 = s2\<lparr>sendLog := sendLog s @ [(w, ok, m)]\<rparr>"
        have s3: "subscriptions s3 = Map_modify w (feeds_union {n}) (subscriptions s)"
          "same_environment s s3" "sendLog s3 = sendLog s @ [(w, ok, m)]"
          using s1 unfolding s3_def s2_def same_environment_def by simp_all
        have send: "ws_send w m s2 = ((if ok then Inr () else Inl SendError), s3)"
          using s1 unfolding ws_send_def s3_def s2_def ok_def same_environment_def
          by (simp add: Let_def)
        have body: "subscribe_forEach w (sub # subs) acc s =
            (if ok then subscribe_forEach w subs (acc @ [n]) s3 else (Some SendError, acc @ [n], s3))"
          using Inr n Some s1 send
          by (simp add: s1_def[symmetric] new_Date_def s2_def[symmetric] same_environment_def
              t_def[symmetric] m_def[symmetric] Let_def)
        show ?thesis
        proof (cases ok)
          case False
          with body Cons.prems have r: "exn = Some SendError" "fs = acc @ [n]" "s' = s3" by auto
          have "map untimed_call (new_calls s s3) = map (snapshot w s) (priced s [n])"
            using s3 Some by (simp add: new_calls_def priced_def snapshot_def untimed_call_def m_eq)
          then show ?thesis using r s3 by (intro exI[of _ "[n]"]) simp
        next
          case True
          with body Cons.prems have "subscribe_forEach w subs (acc @ [n]) s3 = (exn, fs, s')" by simp
          from Cons.IH[OF this] obtain fs' where
            fs': "fs = (acc @ [n]) @ fs'"
            "subscriptions s' = Map_modify w (feeds_union (set fs')) (subscriptions s3)"
            "same_environment s3 s'" "length (sendLog s3) \<le> length (sendLog s')"
            "take (length (sendLog s3)) (sendLog s') = sendLog s3"
            "map untimed_call (new_calls s3 s') = map (snapshot w s3) (priced s3 fs')"
            by blast
          have comp: "feeds_union (set fs') \<circ> feeds_union {n} = feeds_union (set (n # fs'))"
            by (auto simp: feeds_union_def fun_eq_iff)
          have a: "fs = acc @ (n # fs')" using fs' by simp
          have b: "subscriptions s' = Map_modify w (feeds_union (set (n # fs'))) (subscriptions s)"
            using fs'(2) s3(1) by (simp only: Map_modify_modify comp)
          have c: "same_environment s s'"
            using s3(2) fs'(3) by (simp add: same_environment_def)
          have len: "length (sendLog s) \<le> length (sendLog s')" using fs'(4) s3(3) by simp
          have tk: "take (length (sendLog s)) (sendLog s') = sendLog s"
          proof -
            have "take (length (sendLog s)) (take (length (sendLog s3)) (sendLog s')) = sendLog s"
              unfolding fs'(5) using s3(3) by simp
            then show ?thesis using s3(3) by (simp add: min_def)
          qed
          have hd: "sendLog s' = sendLog s3 @ new_calls s3 s'"
            using fs'(5) unfolding new_calls_def by (metis append_take_drop_id)
          have "new_calls s s' = (w, ok, m) # new_calls s3 s'"
            using hd s3(3) unfolding new_calls_def by (metis append.assoc append_Cons append_Nil append_eq_conv_conj)
          then have d: "map untimed_call (new_calls s s') = map (snapshot w s) (priced s (n # fs'))"
            using fs'(6) s3(2) Some
            by (simp add: priced_def snapshot_def untimed_call_def m_eq same_environment_def)
          show ?thesis using a b c d len tk by blast
        qed
      qed
    qed
  qed
qed

lemma get_prop_Inr_any:
  "get_prop v k = Inr x \<Longrightarrow> \<exists>y. get_prop v k' = Inr y"
  by (cases v) auto

lemma handleSubscription_list:
  assumes reg: "registered w s"
    and subs: "get_prop message ''subscriptions'' = Inr (JArr subs)"
    and loop: "subscribe_forEach w subs [] s = (exn, fs, s1)"
  shows "handleSubscription w message s =
           (case exn of
              Some e \<Rightarrow> (Inl e, s1)
            | None \<Rightarrow>
                ws_send w (Subscribed (if truthy (request_subscriptionId message)
                                       then request_subscriptionId message else JNull) fs) s1)"
proof -
  obtain sid where sid: "get_prop message ''subscriptionId'' = Inr sid"
    using get_prop_Inr_any[OF subs] by blast
  from reg obtain cd where "Map_get (subscriptions s) w = Some cd"
    by (auto simp: registered_def)
  then show ?thesis
    using subs loop sid
    by (simp add: handleSubscription_def request_subscriptionId_def split: option.splits)
qed

text \<open>
  Claim C10. The \<^verbatim>\<open>subscribed\<close> acknowledgment carries \<^verbatim>\<open>message.subscriptionId || null\<close>:
  the request's value when it is truthy, and \<^verbatim>\<open>null\<close> for every falsy one, among them
  \<^verbatim>\<open>0\<close>, the empty string, \<^verbatim>\<open>false\<close>, \<^verbatim>\<open>null\<close> and an absent field (read as
  \<^verbatim>\<open>undefined\<close>).
\<close>

theorem subscriptionId_echo:
  assumes "registered w s"
    and "get_prop message ''subscriptions'' = Inr (JArr subs)"
    and "subscribe_forEach w subs [] s = (None, fs, s1)"
  shows "handleSubscription w message s =
           ws_send w (Subscribed (if truthy (request_subscriptionId message)
                                  then request_subscriptionId message else JNull) fs) s1
         \<and> (request_subscriptionId message \<in>
               {JNum (JFinite 0), JStr [], JBool False, JNull, JUndefined} \<longrightarrow>
             handleSubscription w message s = ws_send w (Subscribed JNull fs) s1)"
  using handleSubscription_list[OF assms] by auto

lemma one_client_reached: "step (Connection 1) server_start = Some one_client"
  by (simp add: server_start_def one_client_def on_connection_def new_Date_def ws_send_def Let_def)

theorem subscriptionId_echo_witness:
  "handleSubscription 1 (subscribe_request (JNum (JFinite 0)) [feed_entry SOL_FEED_ID]) one_client =
     ws_send 1 (Subscribed JNull [SOL_FEED_ID])
       (snd (snd (subscribe_forEach 1 [feed_entry SOL_FEED_ID] [] one_client)))"
proof -
  have reg: "registered 1 one_client"
    by (simp add: registered_def one_client_def server_start_def)
  have subs: "get_prop (subscribe_request (JNum (JFinite 0)) [feed_entry SOL_FEED_ID]) ''subscriptions''
      = Inr (JArr [feed_entry SOL_FEED_ID])"
    by (simp add: subscribe_request_def)
  have loop: "subscribe_forEach 1 [feed_entry SOL_FEED_ID] [] one_client =
      (None, [SOL_FEED_ID], snd (snd (subscribe_forEach 1 [feed_entry SOL_FEED_ID] [] one_client)))"
    by (simp add: feed_entry_def SOL_FEED_ID_def one_client_def server_start_def feeds_add_def
        new_Date_def ws_send_def Let_def)
  have sid: "request_subscriptionId (subscribe_request (JNum (JFinite 0)) [feed_entry SOL_FEED_ID])
      = JNum (JFinite 0)"
    by (simp add: request_subscriptionId_def subscribe_request_def)
  show ?thesis
    using subscriptionId_echo[OF reg subs loop] sid by simp
qed

text \<open>
  Claim C8. Removing a connection twice, by \<^verbatim>\<open>'close'\<close>, by \<^verbatim>\<open>'error'\<close> or by one after
  the other, leaves the state that removing it once leaves: the second
  \<^verbatim>\<open>subscriptions.delete(ws)\<close> changes nothing, and neither listener sends anything.
\<close>

theorem unregister_idempotent:
  "on_close w (on_close w s) = on_close w s \<and>
   on_error w (on_error w s) = on_error w s \<and>
   on_close w (on_error w s) = on_error w s \<and>
   on_error w (on_close w s) = on_close w s \<and>
   sendLog (on_close w s) = sendLog s \<and> sendLog (on_error w s) = sendLog s \<and>
   \<not> registered w (on_close w s) \<and> \<not> registered w (on_error w s)"
  by (simp add: on_close_def on_error_def Map_delete_idem registered_def Map_get_delete)

text \<open>
  Claim C9. A request on a socket that is not in \<^verbatim>\<open>subscriptions\<close> is a silent no-op:
  \<^verbatim>\<open>handleSubscription\<close>, \<^verbatim>\<open>handleUnsubscription\<close>, \<^verbatim>\<open>handleClientMessage\<close> and the
  \<^verbatim>\<open>'message'\<close> listener on a parsed frame all return with the state, and so the log of
  sends, as it was.
\<close>

theorem unknown_handle_noop:
  "\<not> registered w s \<Longrightarrow>
     handleSubscription w message s = (Inr (), s) \<and>
     handleUnsubscription w message s = (Inr (), s) \<and>
     handleClientMessage w message s = (Inr (), s) \<and>
     on_message w (Some message) s = (Inr (), s)"
  by (simp add: registered_def handleSubscription_def handleUnsubscription_def
      handleClientMessage_def on_message_def)

theorem unknown_handle_noop_witness:
  "\<not> registered 2 one_client \<and>
   handleSubscription 2 (subscribe_request JNull [feed_entry SOL_FEED_ID]) one_client
     = (Inr (), one_client) \<and>
   on_message 2 (Some (subscribe_request JNull [feed_entry SOL_FEED_ID])) one_client
     = (Inr (), one_client)"
proof -
  have unreg: "\<not> registered 2 one_client"
    by (simp add: registered_def one_client_def server_start_def)
  show ?thesis
    using unreg unknown_handle_noop[OF unreg, of "subscribe_request JNull [feed_entry SOL_FEED_ID]"]
    by simp
qed

section \<open>The loop of handleUnsubscription\<close>

lemma Map_modify_absent: "Map_get es k = None \<Longrightarrow> Map_modify k f es = es"
  by (induction es) (auto split: if_splits)

lemma Map_modify_cong:
  "Map_get es k = Some v \<Longrightarrow> f v = g v \<Longrightarrow> Map_modify k f es = Map_modify k g es"
  by (induction es) (auto split: if_splits)

lemma feeds_of_modify:
  "feeds_of w' (s\<lparr>subscriptions := Map_modify w f (subscriptions s)\<rparr>) =
     (if w' = w then (case Map_get (subscriptions s) w of None \<Rightarrow> {}
                      | Some cd \<Rightarrow> subscribedFeeds (f cd))
      else feeds_of w' s)"
  by (simp add: feeds_of_def Map_get_modify split: option.splits)

lemma has_iff: "has F v \<longleftrightarrow> (\<exists>n. v = JNum n \<and> n \<in> F)"
  by (cases v) auto

lemma unsubscribe_forEach_spec:
  "unsubscribe_forEach w ids acc s = (fs, s') \<Longrightarrow>
     \<exists>fs'. fs = acc @ fs' \<and> distinct fs' \<and>
       set fs' = {v \<in> set ids. has (feeds_of w s) v} \<and>
       s' = s\<lparr>subscriptions := Map_modify w (feeds_minus (numbers_of ids)) (subscriptions s)\<rparr>"
proof (induction ids arbitrary: acc s)
  case Nil
  then show ?case
    by (simp add: feeds_minus_def numbers_of_def Map_modify_id)
next
  case (Cons v ids)
  show ?case
  proof (cases "has (feeds_of w s) v")
    case False
    with Cons.prems have "unsubscribe_forEach w ids acc s = (fs, s')" by simp
    from Cons.IH[OF this] obtain fs' where fs': "fs = acc @ fs'" "distinct fs'"
      "set fs' = {v \<in> set ids. has (feeds_of w s) v}"
      "s' = s\<lparr>subscriptions := Map_modify w (feeds_minus (numbers_of ids)) (subscriptions s)\<rparr>"
      by blast
    have eq: "Map_modify w (feeds_minus (numbers_of (v # ids))) (subscriptions s) =
          Map_modify w (feeds_minus (numbers_of ids)) (subscriptions s)"
    proof (cases "Map_get (subscriptions s) w")
      case None
      then show ?thesis by (simp add: Map_modify_absent)
    next
      case (Some cd)
      moreover have "subscribedFeeds cd - numbers_of (v # ids) = subscribedFeeds cd - numbers_of ids"
        using False Some
        by (cases v) (auto simp: numbers_of_def feeds_of_def)
      then have "feeds_minus (numbers_of (v # ids)) cd = feeds_minus (numbers_of ids) cd"
        by (simp add: feeds_minus_def)
      ultimately show ?thesis by (rule Map_modify_cong)
    qed
    show ?thesis using fs' False eq by auto
  next
    case True
    then obtain n where n: "v = JNum n" "n \<in> feeds_of w s" by (auto simp: has_iff)
    define s1 where "s1 = feeds_delete w n s"
    have s1: "s1 = s\<lparr>subscriptions := Map_modify w (feeds_minus {n}) (subscriptions s)\<rparr>"
    proof -
      have "feeds_minus {n} = (\<lambda>cd. cd\<lparr>subscribedFeeds := subscribedFeeds cd - {n}\<rparr>)"
        by (simp add: fun_eq_iff feeds_minus_def)
      then show ?thesis by (simp add: s1_def feeds_delete_def)
    qed
    have f1: "feeds_of w s1 = feeds_of w s - {n}"
      unfolding s1 feeds_of_modify by (simp add: feeds_of_def feeds_minus_def split: option.splits)
    from True n Cons.prems have "unsubscribe_forEach w ids (acc @ [v]) s1 = (fs, s')"
      by (simp add: s1_def)
    from Cons.IH[OF this] obtain fs' where fs': "fs = (acc @ [v]) @ fs'" "distinct fs'"
      "set fs' = {x \<in> set ids. has (feeds_of w s1) x}"
      "s' = s1\<lparr>subscriptions := Map_modify w (feeds_minus (numbers_of ids)) (subscriptions s1)\<rparr>"
      by blast
    have "\<And>F. F - {n} - numbers_of ids = F - numbers_of (v # ids)"
      using n by (auto simp: numbers_of_def)
    then have comp: "feeds_minus (numbers_of ids) \<circ> feeds_minus {n} = feeds_minus (numbers_of (v # ids))"
      by (simp add: feeds_minus_def fun_eq_iff)
    have a: "fs = acc @ (v # fs')" using fs' by simp
    have b: "distinct (v # fs')" using fs'(2,3) f1 n by (auto simp: has_iff)
    have c: "set (v # fs') = {x \<in> set (v # ids). has (feeds_of w s) x}"
      using fs'(3) f1 n True by (auto simp: has_iff)
    have d: "s' = s\<lparr>subscriptions := Map_modify w (feeds_minus (numbers_of (v # ids))) (subscriptions s)\<rparr>"
      unfolding fs'(4) s1 by (simp add: Map_modify_modify comp)
    show ?thesis using a b c d by blast
  qed
qed

lemma ws_send_facts:
  "sendLog (snd (ws_send w m s)) = sendLog s @ [(w, \<not> sendThrows s (length (sendLog s)), m)]"
  "subscriptions (snd (ws_send w m s)) = subscriptions s"
  "same_environment s (snd (ws_send w m s))"
  "dateCalls (snd (ws_send w m s)) = dateCalls s"
  "fst (ws_send w m s) = (if sendThrows s (length (sendLog s)) then Inl SendError else Inr ())"
  by (simp_all add: ws_send_def Let_def same_environment_def)

lemma handleUnsubscription_list:
  assumes reg: "registered w s"
    and ids: "get_prop message ''feedIds'' = Inr (JArr ids)"
  shows "handleUnsubscription w message s =
           ws_send w (Unsubscribed (fst (unsubscribe_forEach w ids [] s)))
             (s\<lparr>subscriptions := Map_modify w (feeds_minus (numbers_of ids)) (subscriptions s)\<rparr>)"
proof -
  obtain fs s1 where loop: "unsubscribe_forEach w ids [] s = (fs, s1)" by force
  from unsubscribe_forEach_spec[OF loop]
  have s1: "s1 = s\<lparr>subscriptions := Map_modify w (feeds_minus (numbers_of ids)) (subscriptions s)\<rparr>"
    by blast
  from reg obtain cd where "Map_get (subscriptions s) w = Some cd"
    by (auto simp: registered_def)
  then show ?thesis using ids loop s1 by (simp add: handleUnsubscription_def)
qed

text \<open>
  Claim C5. For an \<^verbatim>\<open>unsubscribe\<close> request with a list \<^verbatim>\<open>feedIds\<close> on a registered
  connection, \<^verbatim>\<open>handleUnsubscription\<close> calls \<^verbatim>\<open>ws.send\<close> once, with the acknowledgment
  \<^verbatim>\<open>unsubscribed\<close>; its list holds, each once, exactly the listed values that were in the
  connection's set, all of them are removed from the set, and the sets of the other
  connections stay as they were.
\<close>

theorem unsubscribe_removes_present:
  assumes "registered w s"
    and "get_prop message ''feedIds'' = Inr (JArr ids)"
  shows "let removed = fst (unsubscribe_forEach w ids [] s);
             s' = snd (handleUnsubscription w message s)
         in new_calls s s' =
              [(w, \<not> sendThrows s (length (sendLog s)), Unsubscribed removed)] \<and>
            distinct removed \<and>
            set removed = {v \<in> set ids. has (feeds_of w s) v} \<and>
            feeds_of w s' = feeds_of w s - numbers_of ids \<and>
            (\<forall>w'. w' \<noteq> w \<longrightarrow> feeds_of w' s' = feeds_of w' s)"
proof -
  obtain fs s1 where loop: "unsubscribe_forEach w ids [] s = (fs, s1)" by force
  from unsubscribe_forEach_spec[OF loop]
  have fs: "distinct fs" "set fs = {v \<in> set ids. has (feeds_of w s) v}" by auto
  define s2 where
    "s2 = s\<lparr>subscriptions := Map_modify w (feeds_minus (numbers_of ids)) (subscriptions s)\<rparr>"
  have h: "handleUnsubscription w message s = ws_send w (Unsubscribed fs) s2"
    using handleUnsubscription_list[OF assms] loop by (simp add: s2_def)
  have log: "sendLog s2 = sendLog s" "sendThrows s2 = sendThrows s" by (simp_all add: s2_def)
  have calls: "new_calls s (snd (ws_send w (Unsubscribed fs) s2)) =
      [(w, \<not> sendThrows s (length (sendLog s)), Unsubscribed fs)]"
    by (simp add: new_calls_def ws_send_facts log)
  have feeds: "\<And>w'. feeds_of w' (snd (ws_send w (Unsubscribed fs) s2)) = feeds_of w' s2"
    by (simp add: feeds_of_def ws_send_facts)
  have f2: "feeds_of w s2 = feeds_of w s - numbers_of ids"
    using assms(1) unfolding s2_def feeds_of_modify
    by (auto simp: feeds_of_def feeds_minus_def registered_def split: option.splits)
  have f3: "\<And>w'. w' \<noteq> w \<Longrightarrow> feeds_of w' s2 = feeds_of w' s"
    unfolding s2_def feeds_of_modify by simp
  show ?thesis
    using loop h calls feeds f2 f3 fs by (simp add: Let_def)
qed

theorem unsubscribe_removes_present_witness:
  "registered 1 sol_subscriber \<and>
   new_calls sol_subscriber
     (snd (handleUnsubscription 1
        (unsubscribe_request [JNum (JFinite 6), JNum (JFinite 99)]) sol_subscriber)) =
     [(1, True, Unsubscribed [JNum (JFinite 6)])] \<and>
   feeds_of 1 (snd (handleUnsubscription 1
        (unsubscribe_request [JNum (JFinite 6), JNum (JFinite 99)]) sol_subscriber)) = {}"
proof -
  have reg: "registered 1 sol_subscriber"
    by (simp add: registered_def sol_subscriber_def server_start_def)
  have ids: "get_prop (unsubscribe_request [JNum (JFinite 6), JNum (JFinite 99)]) ''feedIds'' =
      Inr (JArr [JNum (JFinite 6), JNum (JFinite 99)])"
    by (simp add: unsubscribe_request_def)
  have f: "feeds_of 1 sol_subscriber = {JFinite 6}"
    by (simp add: feeds_of_def sol_subscriber_def server_start_def SOL_FEED_ID_def)
  have loop: "fst (unsubscribe_forEach 1 [JNum (JFinite 6), JNum (JFinite 99)] [] sol_subscriber)
      = [JNum (JFinite 6)]"
    by (simp add: f)
      (simp add: feeds_of_def feeds_delete_def sol_subscriber_def server_start_def SOL_FEED_ID_def)
  have thr: "sendThrows sol_subscriber = (\<lambda>k. False)"
    by (simp add: sol_subscriber_def server_start_def)
  show ?thesis
    using unsubscribe_removes_present[OF reg ids] reg loop thr f
    by (simp add: Let_def numbers_of_def del: unsubscribe_forEach.simps)
qed

section \<open>The calls of handleSubscription\<close>

lemma new_calls_append:
  "take (length (sendLog s)) (sendLog s1) = sendLog s \<Longrightarrow>
   length (sendLog s) \<le> length (sendLog s1) \<Longrightarrow>
   sendLog s2 = sendLog s1 @ cs \<Longrightarrow>
   new_calls s s2 = new_calls s s1 @ cs"
  by (simp add: new_calls_def)

lemma handleSubscription_calls:
  assumes reg: "registered w s"
    and subs: "get_prop message ''subscriptions'' = Inr (JArr subs)"
    and loop: "subscribe_forEach w subs [] s = (exn, fs, s1)"
  shows "map untimed_call (new_calls s (snd (handleSubscription w message s))) =
           map (snapshot w s) (priced s fs) @
           (case exn of None \<Rightarrow> [(w, Subscribed (acknowledged_id message) fs)] | Some e \<Rightarrow> [])"
    and "subscriptions (snd (handleSubscription w message s)) =
           Map_modify w (feeds_union (set fs)) (subscriptions s)"
    and "same_environment s (snd (handleSubscription w message s))"
proof -
  from subscribe_forEach_spec[OF loop]
  have spec: "subscriptions s1 = Map_modify w (feeds_union (set fs)) (subscriptions s)"
    "same_environment s s1" "length (sendLog s) \<le> length (sendLog s1)"
    "take (length (sendLog s)) (sendLog s1) = sendLog s"
    "map untimed_call (new_calls s s1) = map (snapshot w s) (priced s fs)"
    by auto
  note h = handleSubscription_list[OF reg subs loop]
  show "map untimed_call (new_calls s (snd (handleSubscription w message s))) =
           map (snapshot w s) (priced s fs) @
           (case exn of None \<Rightarrow> [(w, Subscribed (acknowledged_id message) fs)] | Some e \<Rightarrow> [])"
  proof (cases exn)
    case None
    then have "new_calls s (snd (handleSubscription w message s)) =
        new_calls s s1 @ [(w, \<not> sendThrows s1 (length (sendLog s1)),
                           Subscribed (acknowledged_id message) fs)]"
      using h new_calls_append[OF spec(4,3) ws_send_facts(1)]
      by (simp add: acknowledged_id_def)
    then show ?thesis using spec(5) None by (simp add: untimed_call_def)
  next
    case (Some e)
    then show ?thesis using h spec(5) by simp
  qed
  show "subscriptions (snd (handleSubscription w message s)) =
           Map_modify w (feeds_union (set fs)) (subscriptions s)"
    using h spec(1) by (cases exn) (simp_all add: ws_send_facts)
  show "same_environment s (snd (handleSubscription w message s))"
    using h spec(2) by (cases exn) (simp_all add: ws_send_def Let_def same_environment_def)
qed

text \<open>
  Claim C4. In a \<^verbatim>\<open>subscribe\<close> request with a list, on a registered connection, the feed
  IDs accepted are the list \<open>fs\<close> the loop pushed, all added to the connection's set. The
  calls of \<^verbatim>\<open>ws.send\<close> the handler makes are, in order: for each accepted ID that
  \<^verbatim>\<open>currentPrices\<close> has a value for, one \<^verbatim>\<open>priceUpdate\<close> to the connection with that single
  feed and the string of that value, none for an accepted ID without a value, and then,
  when the loop ended without an exception, the \<^verbatim>\<open>subscribed\<close> confirmation last.
\<close>

theorem snapshot_before_confirmation:
  assumes "registered w s"
    and "get_prop message ''subscriptions'' = Inr (JArr subs)"
    and "subscribe_forEach w subs [] s = (exn, fs, s1)"
  shows "feeds_of w (snd (handleSubscription w message s)) = feeds_of w s \<union> set fs \<and>
         map untimed_call (new_calls s (snd (handleSubscription w message s))) =
           map (\<lambda>n. (w, PriceUpdate 0 [(n, toString s (the (currentPrices s n)))]))
             (filter (\<lambda>n. currentPrices s n \<noteq> None) fs) @
           (case exn of None \<Rightarrow> [(w, Subscribed (acknowledged_id message) fs)] | Some e \<Rightarrow> [])"
proof -
  have "feeds_of w (snd (handleSubscription w message s)) = feeds_of w s \<union> set fs"
    using assms(1) handleSubscription_calls(2)[OF assms]
    by (auto simp: feeds_of_def Map_get_modify feeds_union_def registered_def split: option.splits)
  moreover have "map (snapshot w s) (priced s fs) =
      map (\<lambda>n. (w, PriceUpdate 0 [(n, toString s (the (currentPrices s n)))]))
             (filter (\<lambda>n. currentPrices s n \<noteq> None) fs)"
    by (simp add: priced_def snapshot_def)
  ultimately show ?thesis using handleSubscription_calls(1)[OF assms] by simp
qed

theorem snapshot_before_confirmation_witness:
  "registered 1 one_client \<and>
   map untimed_call (new_calls one_client
      (snd (handleSubscription 1
         (subscribe_request JNull [feed_entry (JFinite 6), feed_entry (JFinite 7)]) one_client))) =
     [(1, PriceUpdate 0 [(JFinite 6, ''245.67'')]),
      (1, Subscribed JNull [JFinite 6, JFinite 7])]"
proof -
  define subs where "subs = [feed_entry (JFinite 6), feed_entry (JFinite 7)]"
  have reg: "registered 1 one_client"
    by (simp add: registered_def one_client_def server_start_def)
  have req: "get_prop (subscribe_request JNull subs) ''subscriptions'' = Inr (JArr subs)"
    by (simp add: subscribe_request_def)
  have loop: "subscribe_forEach 1 subs [] one_client =
      (None, [JFinite 6, JFinite 7], snd (snd (subscribe_forEach 1 subs [] one_client)))"
    by (simp add: subs_def feed_entry_def SOL_FEED_ID_def one_client_def server_start_def
        feeds_add_def new_Date_def ws_send_def Let_def)
  have ack: "acknowledged_id (subscribe_request JNull subs) = JNull"
    by (simp add: acknowledged_id_def request_subscriptionId_def subscribe_request_def)
  have prices: "currentPrices one_client (JFinite 6) = Some (JFinite (24567 / 100))"
    "currentPrices one_client (JFinite 7) = None"
    "toString one_client (JFinite (24567 / 100)) = ''245.67''"
    by (simp_all add: one_client_def server_start_def SOL_FEED_ID_def sample_toString_def)
  show ?thesis
    using snapshot_before_confirmation[OF reg req loop] reg ack prices
    unfolding subs_def[symmetric] by simp
qed

section \<open>The elements a subscribe request accepts\<close>

lemma accepted_Cons:
  "accepted (sub # subs) =
     (case accepted_feedId sub of None \<Rightarrow> accepted subs | Some n \<Rightarrow> n # accepted subs)"
  by (simp add: accepted_def List.map_filter_simps split: option.splits)

lemma subscribe_forEach_accepted:
  "subscribe_forEach w subs acc s = (None, fs, s') \<Longrightarrow> fs = acc @ accepted subs"
proof (induction subs arbitrary: acc s)
  case Nil
  then show ?case by (simp add: accepted_def List.map_filter_simps)
next
  case (Cons sub subs)
  show ?case
  proof (cases "accepted_feedId sub")
    case None
    then have "subscribe_forEach w (sub # subs) acc s =
        (case get_prop sub ''feedId'' of Inl e \<Rightarrow> (Some e, acc, s)
         | Inr fid \<Rightarrow> subscribe_forEach w subs acc s)"
      by (auto simp: accepted_feedId_def split: sum.splits jsval.splits if_splits)
    with Cons.prems have "subscribe_forEach w subs acc s = (None, fs, s')"
      by (auto split: sum.splits)
    from Cons.IH[OF this] None show ?thesis by (simp add: accepted_Cons)
  next
    case (Some n)
    then have fid: "get_prop sub ''feedId'' = Inr (JNum n)" "truthy (JNum n)"
      by (auto simp: accepted_feedId_def split: sum.splits jsval.splits if_splits)
    from Cons.prems fid obtain s3 where "subscribe_forEach w subs (acc @ [n]) s3 = (None, fs, s')"
      by (auto simp: Let_def new_Date_def split: option.splits sum.splits prod.splits)
    from Cons.IH[OF this] Some show ?thesis by (simp add: accepted_Cons)
  qed
qed

lemma get_prop_Inl_iff: "(\<exists>e. get_prop v k = Inl e) \<longleftrightarrow> v = JNull \<or> v = JUndefined"
  by (cases v) auto

lemma subscribe_forEach_completes:
  "\<forall>sub \<in> set subs. sub \<noteq> JNull \<and> sub \<noteq> JUndefined \<Longrightarrow>
   \<forall>k \<ge> length (sendLog s). \<not> sendThrows s k \<Longrightarrow>
   fst (subscribe_forEach w subs acc s) = None"
proof (induction subs arbitrary: acc s)
  case Nil
  then show ?case by simp
next
  case (Cons sub subs)
  from Cons.prems(1) obtain fid where fid: "get_prop sub ''feedId'' = Inr fid"
    using get_prop_Inl_iff[of sub "''feedId''"] by (cases "get_prop sub ''feedId''") auto
  have rest: "\<forall>sub \<in> set subs. sub \<noteq> JNull \<and> sub \<noteq> JUndefined" using Cons.prems(1) by simp
  have step: "\<And>acc' s'. sendThrows s' = sendThrows s \<Longrightarrow> length (sendLog s) \<le> length (sendLog s') \<Longrightarrow>
      fst (subscribe_forEach w subs acc' s') = None"
    using Cons.IH[OF rest] Cons.prems(2) by simp
  show ?case
  proof (cases "\<exists>n. fid = JNum n \<and> truthy fid")
    case False
    then have "subscribe_forEach w (sub # subs) acc s = subscribe_forEach w subs acc s"
      using fid by (auto split: jsval.splits)
    then show ?thesis using step[of s acc] by simp
  next
    case True
    then obtain n where n: "fid = JNum n" "truthy (JNum n)" by auto
    define s1 where "s1 = feeds_add w n s"
    have s1: "sendThrows s1 = sendThrows s" "sendLog s1 = sendLog s" "currentPrices s1 = currentPrices s"
      by (simp_all add: s1_def feeds_add_def)
    show ?thesis
    proof (cases "currentPrices s n")
      case None
      then have "subscribe_forEach w (sub # subs) acc s = subscribe_forEach w subs (acc @ [n]) s1"
        using fid n s1 by (simp add: s1_def[symmetric])
      then show ?thesis using step[of s1] s1 by simp
    next
      case (Some p)
      define s2 where "s2 = snd (new_Date s1)"
      define m where "m = PriceUpdate (fst (new_Date s1)) [(n, toString s2 p)]"
      have s2: "sendThrows s2 = sendThrows s" "sendLog s2 = sendLog s"
        using s1 by (simp_all add: s2_def new_Date_def)
      have ok: "fst (ws_send w m s2) = Inr ()"
        using Cons.prems(2) s2 by (simp add: ws_send_facts)
      have s3: "sendThrows (snd (ws_send w m s2)) = sendThrows s"
        "length (sendLog s) \<le> length (sendLog (snd (ws_send w m s2)))"
        using s2 by (simp_all add: ws_send_def Let_def)
      have sent: "ws_send w m s2 = (Inr (), snd (ws_send w m s2))"
        using ok by (simp add: prod_eq_iff)
      have "subscribe_forEach w (sub # subs) acc s =
          (case ws_send w m s2 of
             (Inr u, s3) \<Rightarrow> subscribe_forEach w subs (acc @ [n]) s3
           | (Inl e, s3) \<Rightarrow> (Some e, acc @ [n], s3))"
        using fid n Some s1
        by (simp add: s1_def[symmetric] Let_def case_prod_beta s2_def m_def)
      then have "subscribe_forEach w (sub # subs) acc s =
          subscribe_forEach w subs (acc @ [n]) (snd (ws_send w m s2))"
        by (subst (asm) sent) simp
      then show ?thesis using step[OF s3] by simp
    qed
  qed
qed

lemma Map_modify_same: "Map_get es k = Some v \<Longrightarrow> f v = v \<Longrightarrow> Map_modify k f es = es"
  by (induction es) (auto split: if_splits)

lemma handleSubscription_no_error_sent:
  assumes "registered w s"
    and "get_prop message ''subscriptions'' = Inr (JArr subs)"
    and "c \<in> set (new_calls s (snd (handleSubscription w message s)))"
  shows "snd (snd c) \<noteq> Error e"
proof
  assume e: "snd (snd c) = Error e"
  obtain exn fs s1 where loop: "subscribe_forEach w subs [] s = (exn, fs, s1)"
    by (metis prod_cases3)
  have "untimed_call c \<in> set (map untimed_call (new_calls s (snd (handleSubscription w message s))))"
    using assms(3) by simp
  then have "untimed_call c \<in> set (map (snapshot w s) (priced s fs)) \<union>
      set (case exn of None \<Rightarrow> [(w, Subscribed (acknowledged_id message) fs)] | Some e \<Rightarrow> [])"
    unfolding handleSubscription_calls(1)[OF assms(1,2) loop] by simp
  moreover have "snd (untimed_call c) = Error e"
    using e by (simp add: untimed_call_def)
  ultimately show False
    by (auto simp: snapshot_def split: option.splits)
qed

text \<open>
  Claim C3, as amended. For a \<^verbatim>\<open>subscribe\<close> request with a list on a registered
  connection:
  \<^item> the handler returns normally when no element is \<^verbatim>\<open>null\<close> or \<^verbatim>\<open>undefined\<close> and no send
    throws;
  \<^item> when it returns normally, the elements accepted are exactly those whose \<^verbatim>\<open>feedId\<close> is a
    number other than zero and NaN (negative and fractional numbers included), in the order
    of the list; they are added to the connection's set and listed in the \<^verbatim>\<open>subscribed\<close>
    acknowledgment, which is delivered last; no \<^verbatim>\<open>error\<close> message is sent; every other
    element is skipped;
  \<^item> when all accepted IDs were in the set already, the registry does not change.
\<close>

theorem subscribe_accepts_nonzero_numbers:
  assumes "registered w s"
    and "get_prop message ''subscriptions'' = Inr (JArr subs)"
  shows "((\<forall>sub \<in> set subs. sub \<noteq> JNull \<and> sub \<noteq> JUndefined) \<and>
          (\<forall>k \<ge> length (sendLog s). \<not> sendThrows s k) \<longrightarrow>
            fst (handleSubscription w message s) = Inr ()) \<and>
         (fst (handleSubscription w message s) = Inr () \<longrightarrow>
            feeds_of w (snd (handleSubscription w message s)) =
              feeds_of w s \<union> set (accepted subs) \<and>
            last (sendLog (snd (handleSubscription w message s))) =
              (w, True, Subscribed (acknowledged_id message) (accepted subs)) \<and>
            (\<forall>c \<in> set (new_calls s (snd (handleSubscription w message s))).
               \<forall>e. snd (snd c) \<noteq> Error e) \<and>
            (set (accepted subs) \<subseteq> feeds_of w s \<longrightarrow>
               subscriptions (snd (handleSubscription w message s)) = subscriptions s)) \<and>
         (\<forall>n. n \<in> set (accepted subs) \<longleftrightarrow>
            (\<exists>sub \<in> set subs. get_prop sub ''feedId'' = Inr (JNum n)) \<and>
            n \<noteq> JFinite 0 \<and> n \<noteq> JNaN)"
proof (intro conjI impI allI)
  obtain exn fs s1 where loop: "subscribe_forEach w subs [] s = (exn, fs, s1)"
    by (metis prod_cases3)
  note h = handleSubscription_list[OF assms loop]
  note spec = subscribe_forEach_spec[OF loop]
  {
    assume ok: "(\<forall>sub \<in> set subs. sub \<noteq> JNull \<and> sub \<noteq> JUndefined) \<and>
          (\<forall>k \<ge> length (sendLog s). \<not> sendThrows s k)"
    then have "exn = None"
      using subscribe_forEach_completes[of subs s w "[]"] loop by simp
    moreover have "\<not> sendThrows s1 (length (sendLog s1))"
      using ok spec by (auto simp: same_environment_def)
    ultimately show "fst (handleSubscription w message s) = Inr ()"
      using h by (simp add: ws_send_facts)
  }
  {
    assume ret: "fst (handleSubscription w message s) = Inr ()"
    then have exn: "exn = None" using h by (cases exn) auto
    then have fs: "fs = accepted subs"
      using subscribe_forEach_accepted[of w subs "[]" s fs s1] loop by simp
    have h': "handleSubscription w message s =
        ws_send w (Subscribed (acknowledged_id message) (accepted subs)) s1"
      using h exn fs by (simp add: acknowledged_id_def)
    have subs': "subscriptions (snd (handleSubscription w message s)) =
        Map_modify w (feeds_union (set (accepted subs))) (subscriptions s)"
      using handleSubscription_calls(2)[OF assms loop] fs by simp
    from assms(1) obtain cd where cd: "Map_get (subscriptions s) w = Some cd"
      by (auto simp: registered_def)
    show "feeds_of w (snd (handleSubscription w message s)) = feeds_of w s \<union> set (accepted subs)"
      using cd unfolding feeds_of_def subs' by (simp add: Map_get_modify feeds_union_def)
    show "last (sendLog (snd (handleSubscription w message s))) =
        (w, True, Subscribed (acknowledged_id message) (accepted subs))"
      using ret unfolding h' by (simp add: ws_send_facts split: if_splits)
    show "\<forall>c \<in> set (new_calls s (snd (handleSubscription w message s))).
               \<forall>e. snd (snd c) \<noteq> Error e"
      using handleSubscription_no_error_sent[OF assms] by blast
    {
      assume sub: "set (accepted subs) \<subseteq> feeds_of w s"
      have "feeds_union (set (accepted subs)) cd = cd"
        using sub cd by (auto simp: feeds_union_def feeds_of_def Un_absorb2)
      then show "subscriptions (snd (handleSubscription w message s)) = subscriptions s"
        unfolding subs' using cd by (simp add: Map_modify_same)
    }
  }
  {
    fix n
    show "n \<in> set (accepted subs) \<longleftrightarrow>
            (\<exists>sub \<in> set subs. get_prop sub ''feedId'' = Inr (JNum n)) \<and>
            n \<noteq> JFinite 0 \<and> n \<noteq> JNaN"
      by (induction subs)
        (auto simp: accepted_Cons accepted_def accepted_feedId_def
          split: sum.splits jsval.splits if_splits option.splits)
  }
qed

theorem subscribe_accepts_negative_counterexample:
  "\<not> spec_valid_feed_id (JFinite (- 1)) \<and>
   fst (handleSubscription 1 (subscribe_request JNull [feed_entry (JFinite (- 1))]) one_client)
     = Inr () \<and>
   feeds_of 1
     (snd (handleSubscription 1 (subscribe_request JNull [feed_entry (JFinite (- 1))]) one_client))
     = {JFinite (- 1)} \<and>
   new_calls one_client
     (snd (handleSubscription 1 (subscribe_request JNull [feed_entry (JFinite (- 1))]) one_client))
     = [(1, True, Subscribed JNull [JFinite (- 1)])]"
  by (simp add: handleSubscription_def subscribe_request_def feed_entry_def one_client_def
      server_start_def feeds_add_def feeds_of_def new_calls_def ws_send_def Let_def
      SOL_FEED_ID_def)

theorem subscribe_accepts_nonzero_numbers_witness:
  "registered 1 one_client \<and>
   fst (handleSubscription 1
          (subscribe_request JNull
             [feed_entry (JFinite 7), JStr ''x'', feed_entry (JFinite 0), feed_entry (JFinite (3 / 2))])
          one_client) = Inr () \<and>
   feeds_of 1 (snd (handleSubscription 1
          (subscribe_request JNull
             [feed_entry (JFinite 7), JStr ''x'', feed_entry (JFinite 0), feed_entry (JFinite (3 / 2))])
          one_client)) = {JFinite 7, JFinite (3 / 2)} \<and>
   last (sendLog (snd (handleSubscription 1
          (subscribe_request JNull
             [feed_entry (JFinite 7), JStr ''x'', feed_entry (JFinite 0), feed_entry (JFinite (3 / 2))])
          one_client))) = (1, True, Subscribed JNull [JFinite 7, JFinite (3 / 2)])"
proof -
  define subs where
    "subs = [feed_entry (JFinite 7), JStr ''x'', feed_entry (JFinite 0), feed_entry (JFinite (3 / 2))]"
  have reg: "registered 1 one_client"
    by (simp add: registered_def one_client_def server_start_def)
  have req: "get_prop (subscribe_request JNull subs) ''subscriptions'' = Inr (JArr subs)"
    by (simp add: subscribe_request_def)
  have readable: "\<forall>sub \<in> set subs. sub \<noteq> JNull \<and> sub \<noteq> JUndefined"
    by (simp add: subs_def feed_entry_def)
  have sends: "\<forall>k \<ge> length (sendLog one_client). \<not> sendThrows one_client k"
    by (simp add: one_client_def server_start_def)
  have acc: "accepted subs = [JFinite 7, JFinite (3 / 2)]"
    by (simp add: subs_def accepted_def accepted_feedId_def feed_entry_def)
  have f: "feeds_of 1 one_client = {}"
    by (simp add: feeds_of_def one_client_def server_start_def)
  have ack: "acknowledged_id (subscribe_request JNull subs) = JNull"
    by (simp add: acknowledged_id_def request_subscriptionId_def subscribe_request_def)
  show ?thesis
    using subscribe_accepts_nonzero_numbers[OF reg req] readable sends reg acc f ack
    unfolding subs_def[symmetric] by auto
qed

section \<open>Requests of the wrong format\<close>

lemma not_isArray_cases:
  "\<not> isArray v \<Longrightarrow> (case v of JArr xs \<Rightarrow> f xs | _ \<Rightarrow> g) = g"
  by (cases v) auto

lemma handleUnsubscription_no_error_sent:
  assumes "registered w s"
    and "get_prop message ''feedIds'' = Inr (JArr ids)"
    and "c \<in> set (new_calls s (snd (handleUnsubscription w message s)))"
  shows "snd (snd c) \<noteq> Error e"
  using assms(3) unfolding handleUnsubscription_list[OF assms(1,2)]
  by (auto simp: new_calls_def ws_send_facts)

text \<open>
  Claim C6. On a registered connection, a \<^verbatim>\<open>subscribe\<close> request whose \<^verbatim>\<open>subscriptions\<close>
  is missing (read as \<^verbatim>\<open>undefined\<close>) or not a list, and an \<^verbatim>\<open>unsubscribe\<close> request whose
  \<^verbatim>\<open>feedIds\<close> is missing or not a list, make the handler call \<^verbatim>\<open>ws.send\<close> exactly once, with
  an \<^verbatim>\<open>error\<close> message to that connection, and leave the registry and the rest of the
  state as they were. With a list the handlers send no \<^verbatim>\<open>error\<close> message at all, whatever
  its elements are.
\<close>

theorem request_format_error:
  assumes "registered w s"
  shows "(\<forall>v. get_prop message ''subscriptions'' = Inr v \<and> \<not> isArray v \<longrightarrow>
            new_calls s (snd (handleSubscription w message s)) =
              [(w, \<not> sendThrows s (length (sendLog s)), Error InvalidSubscriptionFormat)] \<and>
            subscriptions (snd (handleSubscription w message s)) = subscriptions s \<and>
            same_environment s (snd (handleSubscription w message s))) \<and>
         (\<forall>v. get_prop message ''feedIds'' = Inr v \<and> \<not> isArray v \<longrightarrow>
            new_calls s (snd (handleUnsubscription w message s)) =
              [(w, \<not> sendThrows s (length (sendLog s)), Error InvalidUnsubscriptionFormat)] \<and>
            subscriptions (snd (handleUnsubscription w message s)) = subscriptions s \<and>
            same_environment s (snd (handleUnsubscription w message s))) \<and>
         (\<forall>xs. get_prop message ''subscriptions'' = Inr (JArr xs) \<longrightarrow>
            (\<forall>c \<in> set (new_calls s (snd (handleSubscription w message s))).
               \<forall>e. snd (snd c) \<noteq> Error e)) \<and>
         (\<forall>xs. get_prop message ''feedIds'' = Inr (JArr xs) \<longrightarrow>
            (\<forall>c \<in> set (new_calls s (snd (handleUnsubscription w message s))).
               \<forall>e. snd (snd c) \<noteq> Error e))"
proof -
  from assms obtain cd where cd: "Map_get (subscriptions s) w = Some cd"
    by (auto simp: registered_def)
  have sent: "\<And>m. new_calls s (snd (ws_send w m s)) =
      [(w, \<not> sendThrows s (length (sendLog s)), m)]"
    by (simp add: new_calls_def ws_send_facts)
  have a: "\<And>v. get_prop message ''subscriptions'' = Inr v \<Longrightarrow> \<not> isArray v \<Longrightarrow>
      handleSubscription w message s = ws_send w (Error InvalidSubscriptionFormat) s"
    using cd by (simp add: handleSubscription_def not_isArray_cases)
  have b: "\<And>v. get_prop message ''feedIds'' = Inr v \<Longrightarrow> \<not> isArray v \<Longrightarrow>
      handleUnsubscription w message s = ws_send w (Error InvalidUnsubscriptionFormat) s"
    using cd by (simp add: handleUnsubscription_def not_isArray_cases)
  show ?thesis
    using a b sent handleSubscription_no_error_sent[OF assms]
      handleUnsubscription_no_error_sent[OF assms]
    by (auto simp: ws_send_facts)
qed

theorem request_format_error_witness:
  "registered 1 sol_subscriber \<and>
   new_calls sol_subscriber
     (snd (handleSubscription 1
        (JObj [(''type'', JStr ''subscribe''), (''subscriptions'', JNum (JFinite 6))])
        sol_subscriber)) = [(1, True, Error InvalidSubscriptionFormat)] \<and>
   subscriptions (snd (handleSubscription 1
        (JObj [(''type'', JStr ''subscribe''), (''subscriptions'', JNum (JFinite 6))])
        sol_subscriber)) = subscriptions sol_subscriber \<and>
   new_calls sol_subscriber
     (snd (handleUnsubscription 1
        (JObj [(''type'', JStr ''subscribe''), (''subscriptions'', JNum (JFinite 6))])
        sol_subscriber)) = [(1, True, Error InvalidUnsubscriptionFormat)] \<and>
   get_prop (subscribe_request JNull [JStr ''x'']) ''subscriptions'' = Inr (JArr [JStr ''x'']) \<and>
   new_calls sol_subscriber
     (snd (handleSubscription 1 (subscribe_request JNull [JStr ''x'']) sol_subscriber)) =
     [(1, True, Subscribed JNull [])] \<and>
   get_prop (unsubscribe_request [JStr ''x'']) ''feedIds'' = Inr (JArr [JStr ''x'']) \<and>
   new_calls sol_subscriber
     (snd (handleUnsubscription 1 (unsubscribe_request [JStr ''x'']) sol_subscriber)) =
     [(1, True, Unsubscribed [])]"
proof -
  have reg: "registered 1 sol_subscriber"
    by (simp add: registered_def sol_subscriber_def server_start_def)
  have thr: "sendThrows sol_subscriber = (\<lambda>k. False)"
    by (simp add: sol_subscriber_def server_start_def)
  have p1: "get_prop (JObj [(''type'', JStr ''subscribe''), (''subscriptions'', JNum (JFinite 6))])
      ''subscriptions'' = Inr (JNum (JFinite 6)) \<and> \<not> isArray (JNum (JFinite 6))"
    by simp
  have p2: "get_prop (JObj [(''type'', JStr ''subscribe''), (''subscriptions'', JNum (JFinite 6))])
      ''feedIds'' = Inr JUndefined \<and> \<not> isArray JUndefined"
    by simp
  have p3: "get_prop (subscribe_request JNull [JStr ''x'']) ''subscriptions'' = Inr (JArr [JStr ''x''])"
    by (simp add: subscribe_request_def)
  have p4: "get_prop (unsubscribe_request [JStr ''x'']) ''feedIds'' = Inr (JArr [JStr ''x''])"
    by (simp add: unsubscribe_request_def)
  have c3: "new_calls sol_subscriber
     (snd (handleSubscription 1 (subscribe_request JNull [JStr ''x'']) sol_subscriber)) =
     [(1, True, Subscribed JNull [])]"
    by (simp add: handleSubscription_def subscribe_request_def sol_subscriber_def
        server_start_def new_calls_def ws_send_def Let_def)
  have c4: "new_calls sol_subscriber
     (snd (handleUnsubscription 1 (unsubscribe_request [JStr ''x'']) sol_subscriber)) =
     [(1, True, Unsubscribed [])]"
    by (simp add: handleUnsubscription_def unsubscribe_request_def sol_subscriber_def
        server_start_def new_calls_def ws_send_def Let_def feeds_of_def)
  note t1 = request_format_error[OF reg,
      of "JObj [(''type'', JStr ''subscribe''), (''subscriptions'', JNum (JFinite 6))]"]
  show ?thesis
    using t1 p1 p2 p3 p4 c3 c4 reg thr by simp
qed

section \<open>The loop of broadcastPriceUpdate\<close>

lemma broadcast_forEach_spec:
  "sendLog (broadcast_forEach m f es s) =
     sendLog s @ send_calls s m (map fst (filter (wants f s) es)) \<and>
   subscriptions (broadcast_forEach m f es s) =
     filter (\<lambda>e. (fst e, False, m) \<notin> set (send_calls s m (map fst (filter (wants f s) es))))
       (subscriptions s) \<and>
   same_environment s (broadcast_forEach m f es s) \<and>
   dateCalls (broadcast_forEach m f es s) = dateCalls s"
proof (induction es arbitrary: s)
  case Nil
  then show ?case by (simp add: send_calls_def same_environment_def)
next
  case (Cons e es)
  obtain w cd where e: "e = (w, cd)" by (cases e)
  show ?case
  proof (cases "wants f s e")
    case False
    then have "broadcast_forEach m f (e # es) s = broadcast_forEach m f es s"
      by (auto simp: e wants_def)
    then show ?thesis using Cons.IH[of s] False by simp
  next
    case True
    define ok where "ok = (\<not> sendThrows s (length (sendLog s)))"
    define s1 where "s1 = (if ok then s\<lparr>sendLog := sendLog s @ [(w, ok, m)]\<rparr>
      else s\<lparr>sendLog := sendLog s @ [(w, ok, m)], subscriptions := Map_delete w (subscriptions s)\<rparr>)"
    have step: "broadcast_forEach m f (e # es) s = broadcast_forEach m f es s1"
      using True by (simp add: e wants_def ws_send_def Let_def s1_def ok_def)
    have s1: "sendLog s1 = sendLog s @ [(w, ok, m)]" "same_environment s s1"
      "dateCalls s1 = dateCalls s"
      "subscriptions s1 = (if ok then subscriptions s else Map_delete w (subscriptions s))"
      by (simp_all add: s1_def same_environment_def)
    have w1: "wants f s1 = wants f s"
      using s1(2) by (simp add: wants_def same_environment_def fun_eq_iff)
    define rest where "rest = map fst (filter (wants f s) es)"
    have calls: "send_calls s m (w # rest) = (w, ok, m) # send_calls s1 m rest"
      using s1(1,2) by (simp add: send_calls_def enumerate_simps ok_def same_environment_def)
    have fil: "filter (wants f s) (e # es) = e # filter (wants f s) es" using True by simp
    note ih = Cons.IH[of s1, unfolded w1, folded rest_def]
    have a: "sendLog (broadcast_forEach m f (e # es) s) =
        sendLog s @ send_calls s m (map fst (filter (wants f s) (e # es)))"
      unfolding step fil using ih s1(1) calls by (simp add: e rest_def)
    have b: "subscriptions (broadcast_forEach m f (e # es) s) =
        filter (\<lambda>x. (fst x, False, m) \<notin> set (send_calls s m (map fst (filter (wants f s) (e # es)))))
          (subscriptions s)"
    proof -
      have "subscriptions (broadcast_forEach m f es s1) =
          filter (\<lambda>x. (fst x, False, m) \<notin> set (send_calls s1 m rest)) (subscriptions s1)"
        using ih by simp
      also have "\<dots> = filter (\<lambda>x. (fst x, False, m) \<notin> set ((w, ok, m) # send_calls s1 m rest))
          (subscriptions s)"
        unfolding s1(4) by (cases ok) (auto simp: Map_delete_filter intro: filter_cong)
      finally show ?thesis
        unfolding step fil using calls by (simp add: e rest_def)
    qed
    have c: "same_environment s (broadcast_forEach m f (e # es) s)"
      unfolding step using ih s1(2) by (simp add: same_environment_def)
    have d: "dateCalls (broadcast_forEach m f (e # es) s) = dateCalls s"
      unfolding step using ih s1(3) by simp
    show ?thesis using a b c d by blast
  qed
qed

lemma broadcastPriceUpdate_spec:
  "sendLog (broadcastPriceUpdate f p s) =
     sendLog s @ send_calls s (update_message f p s) (recipients f s)"
  "subscriptions (broadcastPriceUpdate f p s) =
     filter (\<lambda>e. (fst e, False, update_message f p s)
                 \<notin> set (send_calls s (update_message f p s) (recipients f s)))
       (subscriptions s)"
  "same_environment s (broadcastPriceUpdate f p s)"
  "dateCalls (broadcastPriceUpdate f p s) = Suc (dateCalls s)"
proof -
  define s1 where "s1 = s\<lparr>dateCalls := Suc (dateCalls s)\<rparr>"
  have b: "broadcastPriceUpdate f p s =
      broadcast_forEach (update_message f p s) f (subscriptions s) s1"
    by (simp add: broadcastPriceUpdate_def new_Date_def update_message_def s1_def)
  have w: "wants f s1 = wants f s" by (simp add: wants_def s1_def fun_eq_iff)
  have c: "\<And>m ws. send_calls s1 m ws = send_calls s m ws" by (simp add: send_calls_def s1_def)
  note spec = broadcast_forEach_spec[of "update_message f p s" f "subscriptions s" s1,
      unfolded w c, folded b]
  show "sendLog (broadcastPriceUpdate f p s) =
     sendLog s @ send_calls s (update_message f p s) (recipients f s)"
    using spec by (simp add: recipients_def s1_def)
  show "subscriptions (broadcastPriceUpdate f p s) =
     filter (\<lambda>e. (fst e, False, update_message f p s)
                 \<notin> set (send_calls s (update_message f p s) (recipients f s)))
       (subscriptions s)"
    using spec by (simp add: recipients_def s1_def)
  show "same_environment s (broadcastPriceUpdate f p s)"
    using spec by (simp add: same_environment_def s1_def)
  show "dateCalls (broadcastPriceUpdate f p s) = Suc (dateCalls s)"
    using spec by (simp add: s1_def)
qed

lemma new_calls_broadcast:
  "new_calls s (broadcastPriceUpdate f p s) = send_calls s (update_message f p s) (recipients f s)"
  by (simp add: new_calls_def broadcastPriceUpdate_spec)

lemma send_calls_targets: "map fst (send_calls s m ws) = ws"
  by (simp add: send_calls_def enumerate_eq_zip comp_def case_prod_beta)

lemma send_calls_messages: "c \<in> set (send_calls s m ws) \<Longrightarrow> snd (snd c) = m"
  by (auto simp: send_calls_def)

lemma calls_to_count:
  "length (filter (\<lambda>c. fst c = w) cs) = count_list (map fst cs) w"
  by (induction cs) auto

lemma count_list_distinct: "distinct xs \<Longrightarrow> count_list xs x = (if x \<in> set xs then 1 else 0)"
  by (induction xs) auto

lemma Map_get_distinct:
  "distinct (map fst es) \<Longrightarrow> Map_get es k = Some v \<longleftrightarrow> (k, v) \<in> set es"
  by (induction es) (auto simp: rev_image_eqI split: if_splits)

lemma recipients_iff:
  assumes "distinct (map fst (subscriptions s))"
  shows "w \<in> set (recipients f s) \<longleftrightarrow>
           registered w s \<and> readyState s w = OPEN \<and> f \<in> feeds_of w s"
proof -
  have "registered w s \<and> readyState s w = OPEN \<and> f \<in> feeds_of w s \<longleftrightarrow>
      (\<exists>cd. Map_get (subscriptions s) w = Some cd \<and> readyState s w = OPEN \<and> f \<in> subscribedFeeds cd)"
    by (auto simp: registered_def feeds_of_def split: option.splits)
  also have "\<dots> \<longleftrightarrow> (\<exists>cd. (w, cd) \<in> set (subscriptions s) \<and> wants f s (w, cd))"
    by (simp add: Map_get_distinct[OF assms] wants_def)
  also have "\<dots> \<longleftrightarrow> w \<in> set (recipients f s)"
    by (force simp: recipients_def)
  finally show ?thesis by simp
qed

lemma recipients_distinct:
  "distinct (map fst (subscriptions s)) \<Longrightarrow> distinct (recipients f s)"
  by (simp add: recipients_def distinct_map_filter)

text \<open>
  Claim C1, as amended. A call of \<^verbatim>\<open>broadcastPriceUpdate(feedId, price)\<close> calls \<^verbatim>\<open>ws.send\<close>
  exactly once for each connection that is registered, whose socket is \<^verbatim>\<open>OPEN\<close> and whose
  set has \<^verbatim>\<open>feedId\<close>, in the order of the registry, and for no other connection (a
  subscribed connection whose socket is not \<^verbatim>\<open>OPEN\<close> gets nothing). Every call carries the
  same \<^verbatim>\<open>priceUpdate\<close> with the single update \<^verbatim>\<open>{feedId, price: price.toString()}\<close>; the
  k-th call of the server delivers it unless that call of \<^verbatim>\<open>ws.send\<close> throws.
\<close>

theorem broadcast_once_per_open_subscriber:
  assumes "distinct (map fst (subscriptions s))"
  shows "(\<forall>w. length (filter (\<lambda>c. fst c = w) (new_calls s (broadcastPriceUpdate feedId price s))) =
              (if registered w s \<and> readyState s w = OPEN \<and> feedId \<in> feeds_of w s
               then 1 else 0)) \<and>
         (\<forall>c \<in> set (new_calls s (broadcastPriceUpdate feedId price s)).
            \<exists>t. snd (snd c) = PriceUpdate t [(feedId, toString s price)]) \<and>
         new_calls s (broadcastPriceUpdate feedId price s) =
           map (\<lambda>(k, w). (w, \<not> sendThrows s k, update_message feedId price s))
             (enumerate (length (sendLog s)) (recipients feedId s))"
proof (intro conjI allI ballI)
  fix w
  show "length (filter (\<lambda>c. fst c = w) (new_calls s (broadcastPriceUpdate feedId price s))) =
      (if registered w s \<and> readyState s w = OPEN \<and> feedId \<in> feeds_of w s then 1 else 0)"
    unfolding new_calls_broadcast calls_to_count send_calls_targets
    using recipients_distinct[OF assms] recipients_iff[OF assms]
    by (simp add: count_list_distinct)
next
  fix c
  assume "c \<in> set (new_calls s (broadcastPriceUpdate feedId price s))"
  then have "snd (snd c) = update_message feedId price s"
    unfolding new_calls_broadcast by (rule send_calls_messages)
  then show "\<exists>t. snd (snd c) = PriceUpdate t [(feedId, toString s price)]"
    by (simp add: update_message_def)
next
  show "new_calls s (broadcastPriceUpdate feedId price s) =
      map (\<lambda>(k, w). (w, \<not> sendThrows s k, update_message feedId price s))
        (enumerate (length (sendLog s)) (recipients feedId s))"
    by (simp add: new_calls_broadcast send_calls_def)
qed

theorem broadcast_skips_closing_counterexample:
  "registered 1 closing_subscriber \<and>
   SOL_FEED_ID \<in> feeds_of 1 closing_subscriber \<and>
   new_calls closing_subscriber
     (broadcastPriceUpdate SOL_FEED_ID (JFinite 200) closing_subscriber) = []"
  by (simp add: closing_subscriber_def sol_subscriber_def server_start_def registered_def
      feeds_of_def new_calls_def broadcastPriceUpdate_def new_Date_def)

theorem broadcast_once_per_open_subscriber_witness:
  "distinct (map fst (subscriptions two_subscribers)) \<and>
   new_calls two_subscribers (broadcastPriceUpdate SOL_FEED_ID (JFinite 200) two_subscribers) =
     [(1, False, PriceUpdate 3 [(SOL_FEED_ID, ''200'')]),
      (2, True, PriceUpdate 3 [(SOL_FEED_ID, ''200'')])]"
proof -
  have d: "distinct (map fst (subscriptions two_subscribers))"
    by (simp add: two_subscribers_def server_start_def)
  have r: "recipients SOL_FEED_ID two_subscribers = [1, 2]"
    by (simp add: recipients_def wants_def two_subscribers_def server_start_def)
  have m: "update_message SOL_FEED_ID (JFinite 200) two_subscribers =
      PriceUpdate 3 [(SOL_FEED_ID, ''200'')]"
    by (simp add: update_message_def two_subscribers_def server_start_def sample_toString_def)
  have e: "sendLog two_subscribers = []" "sendThrows two_subscribers = (\<lambda>k. k = 0)"
    by (simp_all add: two_subscribers_def server_start_def)
  show ?thesis
    using broadcast_once_per_open_subscriber[OF d, of SOL_FEED_ID "JFinite 200"] d
    by (simp add: r m e enumerate_simps)
qed

section \<open>The registry over a run\<close>

text \<open>
  Every listener of the \<^verbatim>\<open>'message'\<close> event changes at most the feed set of its own
  connection, and the log of sends only grows.
\<close>

lemma feeds_change_simps:
  "feeds_union A = feeds_change A {}" "feeds_minus R = feeds_change {} R"
  by (simp_all add: fun_eq_iff feeds_union_def feeds_minus_def feeds_change_def)

lemma Map_modify_feeds_change_empty: "Map_modify w (feeds_change {} {}) es = es"
  by (rule Map_modify_id) (simp add: feeds_change_def)

lemma grows_refl: "grows s s"
  by (simp add: grows_def same_environment_def)

lemma grows_trans: "grows s s1 \<Longrightarrow> grows s1 s2 \<Longrightarrow> grows s s2"
  by (auto simp: grows_def same_environment_def)

lemma grows_ws_send: "grows s (snd (ws_send w m s))"
  by (simp add: grows_def ws_send_facts)

lemma grows_subscribe_forEach:
  assumes "subscribe_forEach w subs acc s = (exn, fs, s1)"
  shows "grows s s1"
proof -
  from subscribe_forEach_spec[OF assms]
  have "take (length (sendLog s)) (sendLog s1) = sendLog s" "same_environment s s1" by auto
  then show ?thesis unfolding grows_def by (metis append_take_drop_id)
qed

lemma handleSubscription_registry:
  "\<exists>A. subscriptions (snd (handleSubscription w message s)) =
          Map_modify w (feeds_change A {}) (subscriptions s) \<and>
        grows s (snd (handleSubscription w message s))"
proof (cases "\<exists>subs. registered w s \<and> get_prop message ''subscriptions'' = Inr (JArr subs)")
  case True
  then obtain subs where reg: "registered w s"
    and subs: "get_prop message ''subscriptions'' = Inr (JArr subs)" by blast
  obtain exn fs s1 where loop: "subscribe_forEach w subs [] s = (exn, fs, s1)"
    by (metis prod_cases3)
  have "grows s s1" using grows_subscribe_forEach[OF loop] .
  moreover have "grows s1 (snd (handleSubscription w message s))"
    unfolding handleSubscription_list[OF reg subs loop]
    by (cases exn) (simp_all add: grows_refl grows_ws_send)
  ultimately have "grows s (snd (handleSubscription w message s))" by (rule grows_trans)
  then show ?thesis
    using handleSubscription_calls(2)[OF reg subs loop] by (auto simp: feeds_change_simps)
next
  case False
  then have "subscriptions (snd (handleSubscription w message s)) = subscriptions s \<and>
      grows s (snd (handleSubscription w message s))"
    by (auto simp: handleSubscription_def registered_def grows_refl grows_ws_send ws_send_facts
        split: option.splits sum.splits jsval.splits)
  then show ?thesis using Map_modify_feeds_change_empty[of w "subscriptions s"] by metis
qed

lemma handleUnsubscription_registry:
  "\<exists>R. subscriptions (snd (handleUnsubscription w message s)) =
          Map_modify w (feeds_change {} R) (subscriptions s) \<and>
        (\<forall>f \<in> R. case get_prop message ''feedIds'' of
                    Inr (JArr ids) \<Rightarrow> JNum f \<in> set ids | _ \<Rightarrow> False) \<and>
        grows s (snd (handleUnsubscription w message s))"
proof (cases "\<exists>ids. registered w s \<and> get_prop message ''feedIds'' = Inr (JArr ids)")
  case True
  then obtain ids where reg: "registered w s"
    and ids: "get_prop message ''feedIds'' = Inr (JArr ids)" by blast
  note h = handleUnsubscription_list[OF reg ids]
  have "subscriptions (snd (handleUnsubscription w message s)) =
      Map_modify w (feeds_change {} (numbers_of ids)) (subscriptions s)"
    unfolding h by (simp add: ws_send_facts feeds_change_simps)
  moreover have "grows s (snd (handleUnsubscription w message s))"
    unfolding h by (simp add: grows_def ws_send_def Let_def same_environment_def)
  ultimately show ?thesis using ids by (intro exI[of _ "numbers_of ids"]) (simp add: numbers_of_def)
next
  case False
  then have "subscriptions (snd (handleUnsubscription w message s)) = subscriptions s \<and>
      grows s (snd (handleUnsubscription w message s))"
    by (auto simp: handleUnsubscription_def registered_def grows_refl grows_ws_send ws_send_facts
        split: option.splits sum.splits jsval.splits)
  then show ?thesis using Map_modify_feeds_change_empty[of w "subscriptions s"]
    by (intro exI[of _ "{}"]) simp
qed

lemma handleClientMessage_registry:
  "\<exists>A R. subscriptions (snd (handleClientMessage w message s)) =
          Map_modify w (feeds_change A R) (subscriptions s) \<and>
        (\<forall>f \<in> R. unsubscribes message f) \<and>
        grows s (snd (handleClientMessage w message s))"
proof -
  have same: "\<And>s'. subscriptions s' = subscriptions s \<Longrightarrow> grows s s' \<Longrightarrow>
      \<exists>A R. subscriptions s' = Map_modify w (feeds_change A R) (subscriptions s) \<and>
        (\<forall>f \<in> R. unsubscribes message f) \<and> grows s s'"
    using Map_modify_feeds_change_empty[of w "subscriptions s"]
    by (intro exI[of _ "{}"]) simp
  show ?thesis
  proof (cases "Map_get (subscriptions s) w")
    case None
    then show ?thesis by (intro same) (simp_all add: handleClientMessage_def grows_refl)
  next
    case (Some cd)
    show ?thesis
    proof (cases "get_prop message ''type''")
      case (Inl e)
      with Some show ?thesis by (intro same) (simp_all add: handleClientMessage_def grows_refl)
    next
      case (Inr ty)
      consider (sub) "ty = JStr ''subscribe''" | (unsub) "ty = JStr ''unsubscribe''"
        | (ping) "ty = JStr ''ping''"
        | (other) "ty \<noteq> JStr ''subscribe''" "ty \<noteq> JStr ''unsubscribe''" "ty \<noteq> JStr ''ping''"
        by blast
      then show ?thesis
      proof cases
        case sub
        then have "handleClientMessage w message s = handleSubscription w message s"
          using Some Inr by (simp add: handleClientMessage_def)
        then show ?thesis using handleSubscription_registry[of w message s]
          by (metis empty_iff)
      next
        case unsub
        then have "handleClientMessage w message s = handleUnsubscription w message s"
          using Some Inr by (simp add: handleClientMessage_def)
        moreover have "\<And>f. (case get_prop message ''feedIds'' of
                    Inr (JArr ids) \<Rightarrow> JNum f \<in> set ids | _ \<Rightarrow> False) \<Longrightarrow> unsubscribes message f"
          using unsub Inr by (simp add: unsubscribes_def)
        ultimately show ?thesis using handleUnsubscription_registry[of w message s]
          by metis
      next
        case ping
        then have "handleClientMessage w message s =
            ws_send w (Pong (clock s (dateCalls s))) (s\<lparr>dateCalls := Suc (dateCalls s)\<rparr>)"
          using Some Inr by (simp add: handleClientMessage_def new_Date_def)
        then show ?thesis
          by (intro same) (simp_all add: ws_send_def Let_def grows_def same_environment_def)
      next
        case other
        then have "handleClientMessage w message s =
            (if template_throws ty then (Inl TypeError, s)
             else ws_send w (Error (UnknownMessageType ty)) s)"
          using Some Inr by (simp add: handleClientMessage_def)
        then show ?thesis
          by (intro same) (simp_all add: ws_send_facts grows_ws_send grows_refl)
      qed
    qed
  qed
qed

lemma on_message_registry:
  "\<exists>A R. subscriptions (snd (on_message w parsed s)) =
          Map_modify w (feeds_change A R) (subscriptions s) \<and>
        (\<forall>f \<in> R. \<exists>message. parsed = Some message \<and> unsubscribes message f) \<and>
        grows s (snd (on_message w parsed s))"
proof (cases parsed)
  case None
  then have "on_message w parsed s = ws_send w (Error InvalidJSONFormat) s"
    by (simp add: on_message_def)
  then show ?thesis
    using Map_modify_feeds_change_empty[of w "subscriptions s"]
    by (intro exI[of _ "{}"]) (simp add: ws_send_facts grows_ws_send)
next
  case (Some message)
  obtain r s1 where h: "handleClientMessage w message s = (r, s1)" by force
  from handleClientMessage_registry[of w message s] h obtain A R where
    AR: "subscriptions s1 = Map_modify w (feeds_change A R) (subscriptions s)"
    "\<forall>f \<in> R. unsubscribes message f" "grows s s1"
    by auto
  have "subscriptions (snd (on_message w parsed s)) = subscriptions s1 \<and>
      grows s1 (snd (on_message w parsed s))"
    using Some h by (cases r) (simp_all add: on_message_def ws_send_facts grows_refl grows_ws_send)
  then show ?thesis using AR Some grows_trans by (metis (no_types, lifting))
qed

lemma log_grows_refl: "log_grows s s"
  by (simp add: log_grows_def)

lemma log_grows_trans: "log_grows s s1 \<Longrightarrow> log_grows s1 s2 \<Longrightarrow> log_grows s s2"
  by (auto simp: log_grows_def)

lemma grows_log_grows: "grows s s' \<Longrightarrow> log_grows s s'"
  by (simp add: grows_def log_grows_def)

lemma new_calls_split:
  "log_grows s s1 \<Longrightarrow> log_grows s1 s2 \<Longrightarrow> new_calls s s2 = new_calls s s1 @ new_calls s1 s2"
  by (auto simp: log_grows_def new_calls_def)

lemma registered_iff: "registered w s \<longleftrightarrow> w \<in> fst ` set (subscriptions s)"
  by (simp add: registered_def Map_get_None_iff)

lemma subscribersOf_iff:
  "w \<in> set (subscribersOf f s) \<longleftrightarrow>
     (\<exists>cd. (w, cd) \<in> set (subscriptions s) \<and> f \<in> subscribedFeeds cd)"
  by (force simp: subscribersOf_def)

lemma Map_set_other: "k \<noteq> k' \<Longrightarrow> (k, v) \<in> set (Map_set k' v' es) \<longleftrightarrow> (k, v) \<in> set es"
  by (induction es) (auto split: if_splits)

lemma Map_modify_mem:
  "(k, v) \<in> set es \<Longrightarrow>
     (k, v) \<in> set (Map_modify k' g es) \<or> (k = k' \<and> (k, g v) \<in> set (Map_modify k' g es))"
  by (induction es) (auto split: if_splits)

lemma tick_spec:
  "sendLog (simulatePriceUpdates_tick p s) =
     sendLog s @ send_calls s (update_message SOL_FEED_ID p s) (recipients SOL_FEED_ID s)"
  "subscriptions (simulatePriceUpdates_tick p s) =
     filter (\<lambda>e. (fst e, False, update_message SOL_FEED_ID p s)
                 \<notin> set (send_calls s (update_message SOL_FEED_ID p s) (recipients SOL_FEED_ID s)))
       (subscriptions s)"
proof -
  define s0 where "s0 = s\<lparr>currentPrices := (currentPrices s)(SOL_FEED_ID \<mapsto> p)\<rparr>"
  have eqs: "update_message SOL_FEED_ID p s0 = update_message SOL_FEED_ID p s"
    "recipients SOL_FEED_ID s0 = recipients SOL_FEED_ID s"
    "\<And>m ws. send_calls s0 m ws = send_calls s m ws"
    "sendLog s0 = sendLog s" "subscriptions s0 = subscriptions s"
    by (simp_all add: s0_def update_message_def recipients_def wants_def[abs_def] send_calls_def)
  have t: "simulatePriceUpdates_tick p s = broadcastPriceUpdate SOL_FEED_ID p s0"
    by (simp add: simulatePriceUpdates_tick_def s0_def)
  show "sendLog (simulatePriceUpdates_tick p s) =
     sendLog s @ send_calls s (update_message SOL_FEED_ID p s) (recipients SOL_FEED_ID s)"
    unfolding t broadcastPriceUpdate_spec eqs ..
  show "subscriptions (simulatePriceUpdates_tick p s) =
     filter (\<lambda>e. (fst e, False, update_message SOL_FEED_ID p s)
                 \<notin> set (send_calls s (update_message SOL_FEED_ID p s) (recipients SOL_FEED_ID s)))
       (subscriptions s)"
    unfolding t broadcastPriceUpdate_spec eqs ..
qed

lemma caught_Some: "caught r = Some s' \<Longrightarrow> s' = snd r"
  by (cases r rule: caught.cases) auto

lemma on_connection_spec:
  "subscriptions (snd (on_connection w s)) =
     Map_set w \<lparr>clientId = connectionId s + 1, subscribedFeeds = {},
                connectedAt = clock s (dateCalls s)\<rparr> (subscriptions s)"
  "log_grows s (snd (on_connection w s))"
  by (simp_all add: on_connection_def new_Date_def ws_send_def Let_def log_grows_def)

lemma step_log_grows: "step e s = Some s' \<Longrightarrow> log_grows s s'"
proof (cases e)
  case (Connection w)
  assume "step e s = Some s'"
  then show ?thesis using Connection on_connection_spec(2)[of s w] by (auto dest: caught_Some)
next
  case (Message w parsed)
  assume "step e s = Some s'"
  then have "s' = snd (on_message w parsed s)" using Message by (auto dest: caught_Some)
  then show ?thesis using on_message_registry[of w parsed s] by (auto intro: grows_log_grows)
next
  case (Tick p)
  assume "step e s = Some s'"
  then show ?thesis using Tick tick_spec(1)[of p s] by (auto simp: log_grows_def)
qed (auto simp: log_grows_def on_close_def on_error_def)

lemma run_log_grows: "run es s = Some s' \<Longrightarrow> log_grows s s'"
proof (induction es arbitrary: s)
  case Nil
  then show ?case by (simp add: log_grows_refl)
next
  case (Cons e es)
  then obtain s1 where "step e s = Some s1" "run es s1 = Some s'"
    by (auto split: option.splits)
  then show ?case using Cons.IH step_log_grows log_grows_trans by blast
qed

lemma step_registered:
  assumes "step e s = Some s'"
  shows "registered w s' \<longleftrightarrow>
           e = Connection w \<or>
           (registered w s \<and> e \<noteq> Close w \<and> e \<noteq> SocketError w \<and>
            \<not> (\<exists>p m. e = Tick p \<and> (w, False, m) \<in> set (new_calls s s')))"
proof (cases e)
  case (Connection w')
  then have "s' = snd (on_connection w' s)" using assms by (auto dest: caught_Some)
  then show ?thesis using Connection
    by (auto simp: registered_def on_connection_spec Map_get_set)
next
  case (Message w' parsed)
  then have "s' = snd (on_message w' parsed s)" using assms by (auto dest: caught_Some)
  then show ?thesis using Message on_message_registry[of w' parsed s]
    by (auto simp: registered_def Map_get_modify split: if_splits)
next
  case (Close w')
  then show ?thesis using assms
    by (auto simp: registered_def on_close_def Map_get_delete split: if_splits)
next
  case (SocketError w')
  then show ?thesis using assms
    by (auto simp: registered_def on_error_def Map_get_delete split: if_splits)
next
  case (Tick p)
  then have s': "s' = simulatePriceUpdates_tick p s" using assms by simp
  define m where "m = update_message SOL_FEED_ID p s"
  define cs where "cs = send_calls s m (recipients SOL_FEED_ID s)"
  have calls: "new_calls s s' = cs"
    unfolding s' new_calls_def tick_spec cs_def m_def by simp
  have subs: "subscriptions s' = filter (\<lambda>e. (fst e, False, m) \<notin> set cs) (subscriptions s)"
    unfolding s' tick_spec cs_def m_def ..
  have msgs: "\<And>m'. (w, False, m') \<in> set cs \<Longrightarrow> m' = m"
    unfolding cs_def using send_calls_messages by fastforce
  have "registered w s' \<longleftrightarrow> registered w s \<and> (w, False, m) \<notin> set cs"
    unfolding registered_iff subs by force
  moreover have "(\<exists>p m. e = Tick p \<and> (w, False, m) \<in> set (new_calls s s')) \<longleftrightarrow>
      (w, False, m) \<in> set cs"
    unfolding calls using Tick msgs by blast
  ultimately show ?thesis using Tick by simp
next
  case (Transport w' r)
  then show ?thesis using assms by (auto simp: registered_def)
qed

lemma run_unregistered:
  "run es s = Some s' \<Longrightarrow> \<not> registered w s \<Longrightarrow> Connection w \<notin> set es \<Longrightarrow> \<not> registered w s'"
proof (induction es arbitrary: s)
  case Nil
  then show ?case by simp
next
  case (Cons e es)
  then obtain s1 where s1: "step e s = Some s1" "run es s1 = Some s'"
    by (auto split: option.splits)
  have "\<not> registered w s1" using step_registered[OF s1(1), of w] Cons.prems by auto
  then show ?case using Cons.IH[OF s1(2)] Cons.prems by simp
qed

lemma send_threw_iff: "send_threw w s s' \<longleftrightarrow> (\<exists>m. (w, False, m) \<in> set (new_calls s s'))"
  by (force simp: send_threw_def)

lemma broadcast_failed_iff:
  "broadcast_failed w e s s' \<longleftrightarrow> (\<exists>p m. e = Tick p \<and> (w, False, m) \<in> set (new_calls s s'))"
  by (cases e) (simp_all add: send_threw_iff)

text \<open>
  A run prunes \<open>w\<close> exactly when one of its ticks, reached by the run, has a send to \<open>w\<close>
  that throws.
\<close>

lemma pruned_in_iff:
  "pruned_in w es s \<longleftrightarrow>
     (\<exists>pre p post sa. es = pre @ Tick p # post \<and> run pre s = Some sa \<and>
        send_threw w sa (simulatePriceUpdates_tick p sa))"
proof (induction es arbitrary: s)
  case Nil
  then show ?case by simp
next
  case (Cons e es)
  show ?case
  proof (cases "step e s")
    case None
    then have "e \<noteq> Tick p" for p by auto
    then show ?thesis using None by (auto simp: Cons_eq_append_conv)
  next
    case (Some s1)
    have head: "broadcast_failed w e s s1 \<longleftrightarrow>
        (\<exists>p. e = Tick p \<and> send_threw w s (simulatePriceUpdates_tick p s))"
      using Some by (cases e) auto
    have "(\<exists>pre p post sa. e # es = pre @ Tick p # post \<and> run pre s = Some sa \<and>
        send_threw w sa (simulatePriceUpdates_tick p sa)) \<longleftrightarrow>
      (\<exists>p. e = Tick p \<and> send_threw w s (simulatePriceUpdates_tick p s)) \<or>
      (\<exists>pre p post sa. es = pre @ Tick p # post \<and> run pre s1 = Some sa \<and>
        send_threw w sa (simulatePriceUpdates_tick p sa))"
      (is "?L \<longleftrightarrow> ?A \<or> ?B")
    proof
      assume ?L
      then obtain pre p post sa where h: "e # es = pre @ Tick p # post" "run pre s = Some sa"
        "send_threw w sa (simulatePriceUpdates_tick p sa)" by blast
      show "?A \<or> ?B"
      proof (cases pre)
        case Nil
        then show ?thesis using h by auto
      next
        case (Cons x pre')
        then have "x = e" "es = pre' @ Tick p # post" "run pre' s1 = Some sa"
          using h Some by auto
        then show ?thesis using h(3) by blast
      qed
    next
      assume "?A \<or> ?B"
      then show ?L
      proof
        assume ?A
        then obtain p where "e = Tick p" "send_threw w s (simulatePriceUpdates_tick p s)" by blast
        then have "e # es = [] @ Tick p # es \<and> run [] s = Some s \<and>
            send_threw w s (simulatePriceUpdates_tick p s)" by simp
        then show ?L by blast
      next
        assume ?B
        then obtain pre p post sa where h: "es = pre @ Tick p # post" "run pre s1 = Some sa"
          "send_threw w sa (simulatePriceUpdates_tick p sa)" by blast
        then have "e # es = (e # pre) @ Tick p # post \<and> run (e # pre) s = Some sa"
          using Some by simp
        then show ?L using h(3) by blast
      qed
    qed
    then show ?thesis using Some head Cons.IH[of s1] by simp
  qed
qed

lemma run_registered:
  "run es s = Some s' \<Longrightarrow> registered w s \<Longrightarrow> Close w \<notin> set es \<Longrightarrow> SocketError w \<notin> set es \<Longrightarrow>
   \<not> pruned_in w es s \<Longrightarrow> registered w s'"
proof (induction es arbitrary: s)
  case Nil
  then show ?case by simp
next
  case (Cons e es)
  then obtain s1 where s1: "step e s = Some s1" "run es s1 = Some s'"
    by (auto split: option.splits)
  have np: "\<not> broadcast_failed w e s s1" "\<not> pruned_in w es s1"
    using Cons.prems(5) s1(1) by simp_all
  have "registered w s1"
    using step_registered[OF s1(1), of w] Cons.prems(2-4) np(1)
    unfolding broadcast_failed_iff by auto
  then show ?case using Cons.IH[OF s1(2)] Cons.prems(3,4) np(2) by simp
qed

lemma run_removed:
  "run es s = Some s' \<Longrightarrow> Connection w \<notin> set es \<Longrightarrow>
   Close w \<in> set es \<or> SocketError w \<in> set es \<or> pruned_in w es s \<Longrightarrow> \<not> registered w s'"
proof (induction es arbitrary: s)
  case Nil
  then show ?case by simp
next
  case (Cons e es)
  then obtain s1 where s1: "step e s = Some s1" "run es s1 = Some s'"
    by (auto split: option.splits)
  have nc: "e \<noteq> Connection w" "Connection w \<notin> set es" using Cons.prems(2) by auto
  show ?case
  proof (cases "e = Close w \<or> e = SocketError w \<or> broadcast_failed w e s s1")
    case True
    then have "\<not> registered w s1"
      using step_registered[OF s1(1), of w] nc(1) unfolding broadcast_failed_iff by auto
    then show ?thesis using run_unregistered[OF s1(2)] nc(2) by blast
  next
    case False
    then have "Close w \<in> set es \<or> SocketError w \<in> set es \<or> pruned_in w es s1"
      using Cons.prems(3) s1(1) by auto
    then show ?thesis using Cons.IH[OF s1(2) nc(2)] by blast
  qed
qed

lemma step_keeps_subscription:
  assumes "step e s = Some s'"
    and "w \<in> set (subscribersOf f s)"
    and "e \<noteq> Close w" "e \<noteq> SocketError w" "e \<noteq> Connection w"
    and "\<forall>message. e = Message w (Some message) \<longrightarrow> \<not> unsubscribes message f"
    and "\<not> broadcast_failed w e s s'"
  shows "w \<in> set (subscribersOf f s')"
proof -
  from assms(2) obtain cd where cd: "(w, cd) \<in> set (subscriptions s)" "f \<in> subscribedFeeds cd"
    by (auto simp: subscribersOf_iff)
  show ?thesis
  proof (cases e)
    case (Connection w')
    then have "s' = snd (on_connection w' s)" using assms(1) by (auto dest: caught_Some)
    then have "(w, cd) \<in> set (subscriptions s')"
      using Connection assms(5) cd(1) by (simp add: on_connection_spec Map_set_other)
    then show ?thesis using cd(2) by (auto simp: subscribersOf_iff)
  next
    case (Message w' parsed)
    then have s': "s' = snd (on_message w' parsed s)" using assms(1) by (auto dest: caught_Some)
    from on_message_registry[of w' parsed s] obtain A R where
      AR: "subscriptions s' = Map_modify w' (feeds_change A R) (subscriptions s)"
      "\<forall>f \<in> R. \<exists>message. parsed = Some message \<and> unsubscribes message f"
      unfolding s' by blast
    have "w' = w \<Longrightarrow> f \<notin> R" using AR(2) assms(6) Message by auto
    then have "w' = w \<Longrightarrow> f \<in> subscribedFeeds (feeds_change A R cd)"
      using cd(2) by (simp add: feeds_change_def)
    then show ?thesis
      using Map_modify_mem[OF cd(1), of w' "feeds_change A R"] cd(2)
      unfolding subscribersOf_iff AR(1) by blast
  next
    case (Close w')
    then show ?thesis using assms(1,3) cd
      by (auto simp: subscribersOf_iff on_close_def Map_delete_filter)
  next
    case (SocketError w')
    then show ?thesis using assms(1,4) cd
      by (auto simp: subscribersOf_iff on_error_def Map_delete_filter)
  next
    case (Tick p)
    then have s': "s' = simulatePriceUpdates_tick p s" using assms(1) by simp
    have none: "\<forall>m. (w, False, m) \<notin> set (new_calls s s')"
      using assms(7) Tick by (simp add: send_threw_iff)
    have "new_calls s s' =
        send_calls s (update_message SOL_FEED_ID p s) (recipients SOL_FEED_ID s)"
      unfolding s' new_calls_def tick_spec by simp
    then have "(w, cd) \<in> set (subscriptions s')"
      using none cd(1) unfolding s' tick_spec(2) by simp
    then show ?thesis using cd(2) by (auto simp: subscribersOf_iff)
  next
    case (Transport w' r)
    then show ?thesis using assms(1) cd by (auto simp: subscribersOf_iff)
  qed
qed

lemma run_keeps_subscription:
  "run es s = Some s' \<Longrightarrow> w \<in> set (subscribersOf f s) \<Longrightarrow>
   Close w \<notin> set es \<Longrightarrow> SocketError w \<notin> set es \<Longrightarrow> Connection w \<notin> set es \<Longrightarrow>
   \<forall>message. Message w (Some message) \<in> set es \<longrightarrow> \<not> unsubscribes message f \<Longrightarrow>
   \<not> pruned_in w es s \<Longrightarrow>
   w \<in> set (subscribersOf f s')"
proof (induction es arbitrary: s)
  case Nil
  then show ?case by simp
next
  case (Cons e es)
  then obtain s1 where s1: "step e s = Some s1" "run es s1 = Some s'"
    by (auto split: option.splits)
  have np: "\<not> broadcast_failed w e s s1" "\<not> pruned_in w es s1"
    using Cons.prems(7) s1(1) by simp_all
  have "w \<in> set (subscribersOf f s1)"
    using step_keeps_subscription[OF s1(1) Cons.prems(2) _ _ _ _ np(1)] Cons.prems(3-6) by auto
  then show ?case using Cons.IH[OF s1(2)] Cons.prems(3-6) np(2) by simp
qed

lemma Map_modify_first: "Map_get es k = Some v \<Longrightarrow> (k, g v) \<in> set (Map_modify k g es)"
  by (induction es) (auto split: if_splits)

lemma recipients_registered: "w \<in> set (recipients f s) \<Longrightarrow> registered w s \<and> readyState s w = OPEN"
  by (force simp: recipients_def wants_def registered_iff)

lemma subscribersOf_registered: "w \<in> set (subscribersOf f s) \<Longrightarrow> registered w s"
  by (force simp: subscribersOf_def registered_iff)

lemma subscribe_completed:
  assumes reg: "registered w s"
    and subs: "get_prop message ''subscriptions'' = Inr (JArr subs)"
    and ret: "fst (handleSubscription w message s) = Inr ()"
    and f: "f \<in> set (accepted subs)"
  shows "w \<in> set (subscribersOf f (snd (handleSubscription w message s)))"
proof -
  obtain exn fs s1 where loop: "subscribe_forEach w subs [] s = (exn, fs, s1)"
    by (metis prod_cases3)
  have "exn = None" using handleSubscription_list[OF reg subs loop] ret by (cases exn) auto
  then have fs: "fs = accepted subs"
    using subscribe_forEach_accepted[of w subs "[]" s fs s1] loop by simp
  from reg obtain cd where cd: "Map_get (subscriptions s) w = Some cd"
    by (auto simp: registered_def)
  have "(w, feeds_union (set (accepted subs)) cd)
      \<in> set (subscriptions (snd (handleSubscription w message s)))"
    unfolding handleSubscription_calls(2)[OF reg subs loop] fs
    using cd by (rule Map_modify_first)
  moreover have "f \<in> subscribedFeeds (feeds_union (set (accepted subs)) cd)"
    using f by (simp add: feeds_union_def)
  ultimately show ?thesis unfolding subscribersOf_iff by blast
qed

text \<open>
  Claim C7. The registry over the runs of the server. The subscribers of a feed,
  \<open>subscribersOf\<close>, are the connections the loop of \<^verbatim>\<open>broadcastPriceUpdate\<close> finds the feed
  for. The death of a connection that a broadcast detects is, as in the state machine of the
  spec, a send to it that throws during the broadcast (\<open>broadcast_failed\<close> for one step,
  \<open>pruned_in\<close> for a run, the latter characterised by \<open>pruned_in_iff\<close>): a socket the broadcast finds not \<^verbatim>\<open>OPEN\<close> is skipped and stays
  registered until its close or error event, and a send that throws in a handler of the
  \<^verbatim>\<open>'message'\<close> event removes nothing. A socket object gets the \<^verbatim>\<open>'connection'\<close> event once,
  so the runs that matter for a connection \<open>w\<close> after that event have no further
  \<open>Connection w\<close>.
  \<^item> After its \<^verbatim>\<open>'connection'\<close> event a connection is registered, with no feeds.
  \<^item> In one step, \<open>w\<close> is registered afterwards exactly when the step is its connection
    event, or it was registered and the step is neither its \<^verbatim>\<open>'close'\<close> nor its \<^verbatim>\<open>'error'\<close>
    event nor a broadcast in which the send to \<open>w\<close> threw.
  \<^item> Over a run, a registered connection stays registered when the run has neither of its
    two events and no such broadcast, whatever else was sent to it and threw; and with one
    of the three it is neither registered nor a subscriber of any feed at the end.
  \<^item> Once it is not registered it never is again, nor a subscriber of any feed: the removed
    state is terminal.
  \<^item> A subscriber of a feed is registered.
  \<^item> After a \<^verbatim>\<open>subscribe\<close> request that returned normally the connection is a subscriber
    of every feed the request had accepted.
  \<^item> A subscriber of a feed stays one, in a step and over a run, unless the connection is
    unregistered (its close or error event, or a broadcast in which the send to it threw)
    or sends an \<^verbatim>\<open>unsubscribe\<close> request listing the feed.
\<close>

theorem registry_membership:
  "(step (Connection w) s = Some s1 \<longrightarrow> registered w s1 \<and> feeds_of w s1 = {}) \<and>
   (step e s = Some s1 \<longrightarrow>
      (registered w s1 \<longleftrightarrow>
         e = Connection w \<or>
         (registered w s \<and> e \<noteq> Close w \<and> e \<noteq> SocketError w \<and>
          \<not> (\<exists>p m. e = Tick p \<and> (w, False, m) \<in> set (new_calls s s1))))) \<and>
   (broadcast_failed w e s s1 \<longleftrightarrow>
      (\<exists>p m. e = Tick p \<and> (w, False, m) \<in> set (new_calls s s1))) \<and>
   (run es s = Some s2 \<and> registered w s \<and> Close w \<notin> set es \<and> SocketError w \<notin> set es \<and>
      \<not> pruned_in w es s \<longrightarrow> registered w s2) \<and>
   (run es s = Some s2 \<and> Connection w \<notin> set es \<and>
      (Close w \<in> set es \<or> SocketError w \<in> set es \<or> pruned_in w es s) \<longrightarrow>
      \<not> registered w s2 \<and> w \<notin> set (subscribersOf f s2)) \<and>
   (run es s = Some s2 \<and> \<not> registered w s \<and> Connection w \<notin> set es \<longrightarrow>
      \<not> registered w s2 \<and> w \<notin> set (subscribersOf f s2)) \<and>
   (w \<in> set (subscribersOf f s) \<longrightarrow> registered w s) \<and>
   (registered w s \<and> get_prop message ''subscriptions'' = Inr (JArr subs) \<and>
      fst (handleSubscription w message s) = Inr () \<and> f \<in> set (accepted subs) \<longrightarrow>
      w \<in> set (subscribersOf f (snd (handleSubscription w message s)))) \<and>
   (step e s = Some s1 \<and> w \<in> set (subscribersOf f s) \<and>
      e \<noteq> Close w \<and> e \<noteq> SocketError w \<and> e \<noteq> Connection w \<and>
      (\<forall>message. e = Message w (Some message) \<longrightarrow> \<not> unsubscribes message f) \<and>
      \<not> broadcast_failed w e s s1 \<longrightarrow>
      w \<in> set (subscribersOf f s1)) \<and>
   (run es s = Some s2 \<and> w \<in> set (subscribersOf f s) \<and>
      Close w \<notin> set es \<and> SocketError w \<notin> set es \<and> Connection w \<notin> set es \<and>
      (\<forall>message. Message w (Some message) \<in> set es \<longrightarrow> \<not> unsubscribes message f) \<and>
      \<not> pruned_in w es s \<longrightarrow>
      w \<in> set (subscribersOf f s2))"
proof (intro conjI impI)
  assume c: "step (Connection w) s = Some s1"
  then have s1: "s1 = snd (on_connection w s)" by (auto dest: caught_Some)
  show "registered w s1" using step_registered[OF c, of w] by simp
  show "feeds_of w s1 = {}"
    unfolding s1 by (simp add: feeds_of_def on_connection_spec Map_get_set)
next
  assume "step e s = Some s1"
  then show "registered w s1 \<longleftrightarrow>
         e = Connection w \<or>
         (registered w s \<and> e \<noteq> Close w \<and> e \<noteq> SocketError w \<and>
          \<not> (\<exists>p m. e = Tick p \<and> (w, False, m) \<in> set (new_calls s s1)))"
    by (rule step_registered)
next
  show "broadcast_failed w e s s1 \<longleftrightarrow>
      (\<exists>p m. e = Tick p \<and> (w, False, m) \<in> set (new_calls s s1))"
    by (rule broadcast_failed_iff)
next
  assume "run es s = Some s2 \<and> registered w s \<and> Close w \<notin> set es \<and> SocketError w \<notin> set es \<and>
      \<not> pruned_in w es s"
  then show "registered w s2" using run_registered by blast
next
  assume "run es s = Some s2 \<and> Connection w \<notin> set es \<and>
      (Close w \<in> set es \<or> SocketError w \<in> set es \<or> pruned_in w es s)"
  then show "\<not> registered w s2" using run_removed[of es s s2 w] by blast
  then show "w \<notin> set (subscribersOf f s2)" using subscribersOf_registered by blast
next
  assume a: "run es s = Some s2 \<and> \<not> registered w s \<and> Connection w \<notin> set es"
  then show "\<not> registered w s2" using run_unregistered by blast
  then show "w \<notin> set (subscribersOf f s2)" using subscribersOf_registered by blast
next
  assume "w \<in> set (subscribersOf f s)"
  then show "registered w s" by (rule subscribersOf_registered)
next
  assume "registered w s \<and> get_prop message ''subscriptions'' = Inr (JArr subs) \<and>
      fst (handleSubscription w message s) = Inr () \<and> f \<in> set (accepted subs)"
  then show "w \<in> set (subscribersOf f (snd (handleSubscription w message s)))"
    using subscribe_completed by blast
next
  assume "step e s = Some s1 \<and> w \<in> set (subscribersOf f s) \<and>
      e \<noteq> Close w \<and> e \<noteq> SocketError w \<and> e \<noteq> Connection w \<and>
      (\<forall>message. e = Message w (Some message) \<longrightarrow> \<not> unsubscribes message f) \<and>
      \<not> broadcast_failed w e s s1"
  then show "w \<in> set (subscribersOf f s1)"
    using step_keeps_subscription[of e s s1 w f] by blast
next
  assume "run es s = Some s2 \<and> w \<in> set (subscribersOf f s) \<and>
      Close w \<notin> set es \<and> SocketError w \<notin> set es \<and> Connection w \<notin> set es \<and>
      (\<forall>message. Message w (Some message) \<in> set es \<longrightarrow> \<not> unsubscribes message f) \<and>
      \<not> pruned_in w es s"
  then show "w \<in> set (subscribersOf f s2)"
    using run_keeps_subscription[of es s s2 w f] by blast
qed

lemmas example_defs =
  server_start_def one_client_def sol_subscriber_def SOL_FEED_ID_def sample_toString_def
  subscribe_request_def feed_entry_def

lemmas run_defs =
  simulatePriceUpdates_tick_def broadcastPriceUpdate_def new_Date_def ws_send_def Let_def
  on_close_def on_error_def on_connection_def

theorem registry_membership_witness:
  "registered 1 one_client \<and> feeds_of 1 one_client = {} \<and>
   \<not> registered 1 (on_close 1 sol_subscriber) \<and>
   registered 1 (the (run quiet_run sol_subscriber)) \<and>
   1 \<in> set (subscribersOf SOL_FEED_ID (the (run quiet_run sol_subscriber))) \<and>
   \<not> registered 1 (the (run quiet_run server_start)) \<and>
   1 \<in> set (subscribersOf SOL_FEED_ID
              (snd (handleSubscription 1
                      (subscribe_request JNull [feed_entry SOL_FEED_ID]) one_client))) \<and>
   (1, False, Pong 1) \<in> set (new_calls failing_pong (the (run failed_pong_run failing_pong))) \<and>
   registered 1 (the (run failed_pong_run failing_pong)) \<and>
   1 \<in> set (subscribersOf SOL_FEED_ID (the (run failed_pong_run failing_pong))) \<and>
   1 \<in> set (subscribersOf SOL_FEED_ID two_subscribers) \<and>
   1 \<notin> set (subscribersOf SOL_FEED_ID (the (run [Tick (JFinite 200)] two_subscribers)))"
proof -
  define s2 where "s2 = the (run quiet_run sol_subscriber)"
  define s3 where "s3 = the (run quiet_run server_start)"
  define s4 where "s4 = the (run failed_pong_run failing_pong)"
  define s5 where "s5 = the (run [Tick (JFinite 200)] two_subscribers)"
  define req where "req = subscribe_request JNull [feed_entry SOL_FEED_ID]"
  have conn: "step (Connection 1) server_start = Some one_client"
    by (rule one_client_reached)
  have close: "step (Close 1) sol_subscriber = Some (on_close 1 sol_subscriber)"
    by simp
  have r2: "run quiet_run sol_subscriber = Some s2"
    unfolding s2_def by (simp add: quiet_run_def run_defs example_defs)
  have r3: "run quiet_run server_start = Some s3"
    unfolding s3_def by (simp add: quiet_run_def run_defs example_defs)
  have r4: "run failed_pong_run failing_pong = Some s4"
    unfolding s4_def
    by (simp add: failed_pong_run_def failing_pong_def ping_request_def on_message_def
        handleClientMessage_def run_defs example_defs)
  have r5: "run [Tick (JFinite 200)] two_subscribers = Some s5"
    unfolding s5_def by simp
  have reg: "registered 1 sol_subscriber" "\<not> registered 1 server_start"
    "registered 1 one_client" "registered 1 failing_pong"
    by (simp_all add: registered_def failing_pong_def example_defs)
  have sub: "1 \<in> set (subscribersOf SOL_FEED_ID sol_subscriber)"
    "1 \<in> set (subscribersOf SOL_FEED_ID failing_pong)"
    "1 \<in> set (subscribersOf SOL_FEED_ID two_subscribers)"
    by (simp_all add: subscribersOf_def failing_pong_def two_subscribers_def example_defs)
  have events: "Close 1 \<notin> set quiet_run" "SocketError 1 \<notin> set quiet_run"
    "Connection 1 \<notin> set quiet_run"
    "\<forall>message. Message 1 (Some message) \<in> set quiet_run \<longrightarrow>
       \<not> unsubscribes message SOL_FEED_ID"
    by (simp_all add: quiet_run_def)
  have events4: "Close 1 \<notin> set failed_pong_run" "SocketError 1 \<notin> set failed_pong_run"
    "Connection 1 \<notin> set failed_pong_run"
    "\<forall>message. Message 1 (Some message) \<in> set failed_pong_run \<longrightarrow>
       \<not> unsubscribes message SOL_FEED_ID"
    by (auto simp: failed_pong_run_def ping_request_def unsubscribes_def)
  have np2: "\<not> pruned_in 1 quiet_run sol_subscriber"
    by (simp add: quiet_run_def send_threw_def new_calls_def run_defs example_defs)
  have np4: "\<not> pruned_in 1 failed_pong_run failing_pong"
    by (simp add: failed_pong_run_def failing_pong_def ping_request_def on_message_def
        handleClientMessage_def send_threw_def new_calls_def run_defs example_defs)
  have threw: "(1, False, Pong 1) \<in> set (new_calls failing_pong s4)"
    unfolding s4_def
    by (simp add: failed_pong_run_def failing_pong_def ping_request_def on_message_def
        handleClientMessage_def new_calls_def run_defs example_defs)
  have p5: "pruned_in 1 [Tick (JFinite 200)] two_subscribers"
    by (simp add: send_threw_def new_calls_def two_subscribers_def run_defs example_defs)
  have q: "get_prop req ''subscriptions'' = Inr (JArr [feed_entry SOL_FEED_ID])"
    by (simp add: req_def subscribe_request_def)
  have ret: "fst (handleSubscription 1 req one_client) = Inr ()"
    by (simp add: req_def handleSubscription_def feeds_add_def run_defs example_defs)
  have acc: "SOL_FEED_ID \<in> set (accepted [feed_entry SOL_FEED_ID])"
    by (simp add: accepted_def accepted_feedId_def example_defs)
  note t1 = registry_membership[of 1 server_start one_client, THEN conjunct1]
  note t2 = registry_membership[of 1 sol_subscriber "on_close 1 sol_subscriber" "Close 1",
      THEN conjunct2, THEN conjunct1]
  note t3 = registry_membership[of 1 sol_subscriber _ _ quiet_run s2 SOL_FEED_ID]
  note t3a = t3[THEN conjunct2, THEN conjunct2, THEN conjunct2, THEN conjunct1]
  note t3b = t3[THEN conjunct2, THEN conjunct2, THEN conjunct2, THEN conjunct2,
      THEN conjunct2, THEN conjunct2, THEN conjunct2, THEN conjunct2, THEN conjunct2]
  note t4 = registry_membership[of 1 server_start _ _ quiet_run s3 SOL_FEED_ID,
      THEN conjunct2, THEN conjunct2, THEN conjunct2, THEN conjunct2, THEN conjunct2,
      THEN conjunct1]
  note t5 = registry_membership[of 1 one_client _ _ _ _ SOL_FEED_ID req
      "[feed_entry SOL_FEED_ID]",
      THEN conjunct2, THEN conjunct2, THEN conjunct2, THEN conjunct2, THEN conjunct2,
      THEN conjunct2, THEN conjunct2, THEN conjunct1]
  note t6 = registry_membership[of 1 failing_pong _ _ failed_pong_run s4 SOL_FEED_ID]
  note t6a = t6[THEN conjunct2, THEN conjunct2, THEN conjunct2, THEN conjunct1]
  note t6b = t6[THEN conjunct2, THEN conjunct2, THEN conjunct2, THEN conjunct2,
      THEN conjunct2, THEN conjunct2, THEN conjunct2, THEN conjunct2, THEN conjunct2]
  note t7 = registry_membership[of 1 two_subscribers _ _ "[Tick (JFinite 200)]" s5
      SOL_FEED_ID,
      THEN conjunct2, THEN conjunct2, THEN conjunct2, THEN conjunct2, THEN conjunct1]
  have a1: "registered 1 one_client \<and> feeds_of 1 one_client = {}" using t1 conn by blast
  have a2: "\<not> registered 1 (on_close 1 sol_subscriber)" using t2 close by blast
  have a3: "registered 1 s2" using t3a r2 reg(1) events(1,2) np2 by blast
  have a4: "1 \<in> set (subscribersOf SOL_FEED_ID s2)"
    using t3b r2 sub(1) events np2 by blast
  have a5: "\<not> registered 1 s3" using t4 r3 reg(2) events(3) by blast
  have a6: "1 \<in> set (subscribersOf SOL_FEED_ID (snd (handleSubscription 1 req one_client)))"
    using t5 reg(3) q ret acc by blast
  have a7: "registered 1 s4" using t6a r4 reg(4) events4(1,2) np4 by blast
  have a8: "1 \<in> set (subscribersOf SOL_FEED_ID s4)"
    using t6b r4 sub(2) events4 np4 by blast
  have a9: "1 \<notin> set (subscribersOf SOL_FEED_ID s5)"
    using t7 r5 p5 by simp
  show ?thesis
    using a1 a2 a3 a4 a5 a6 a7 a8 a9 threw sub(3)
    unfolding s2_def s3_def s4_def s5_def req_def by blast
qed

section \<open>Pruning in the broadcast\<close>

lemma broadcast_registered:
  "registered w (broadcastPriceUpdate f p s) \<longleftrightarrow>
     registered w s \<and> (\<forall>m. (w, False, m) \<notin> set (new_calls s (broadcastPriceUpdate f p s)))"
proof -
  define m where "m = update_message f p s"
  define cs where "cs = send_calls s m (recipients f s)"
  have calls: "new_calls s (broadcastPriceUpdate f p s) = cs"
    by (simp add: new_calls_broadcast cs_def m_def)
  have subs: "subscriptions (broadcastPriceUpdate f p s) =
      filter (\<lambda>e. (fst e, False, m) \<notin> set cs) (subscriptions s)"
    unfolding broadcastPriceUpdate_spec cs_def m_def ..
  have msgs: "\<And>m'. (w, False, m') \<in> set cs \<Longrightarrow> m' = m"
    unfolding cs_def using send_calls_messages by fastforce
  have "registered w (broadcastPriceUpdate f p s) \<longleftrightarrow> registered w s \<and> (w, False, m) \<notin> set cs"
    unfolding registered_iff subs by force
  then show ?thesis unfolding calls using msgs by blast
qed

text \<open>
  Claim C2, as amended. In a broadcast:
  \<^item> \<^verbatim>\<open>ws.send\<close> is called for every registered connection that is \<^verbatim>\<open>OPEN\<close> and has the
    feed, in the order of the registry, whichever of these calls throw: a failed send does
    not stop the delivery to the others;
  \<^item> a connection is registered afterwards exactly when it was registered and the send to
    it, if any, did not throw: a connection whose send throws is removed;
  \<^item> a connection whose socket is not \<^verbatim>\<open>OPEN\<close> is skipped: nothing is sent to it and it
    stays in the registry (its \<^verbatim>\<open>'close'\<close> or \<^verbatim>\<open>'error'\<close> event removes it);
  \<^item> a connection that the broadcast left unregistered gets nothing from any later
    broadcast, for any feed, after any run without a new connection event for it.
\<close>

theorem broadcast_prunes_failed_sends:
  "map fst (new_calls s (broadcastPriceUpdate f p s)) = recipients f s \<and>
   (registered w (broadcastPriceUpdate f p s) \<longleftrightarrow>
      registered w s \<and>
      (\<forall>m. (w, False, m) \<notin> set (new_calls s (broadcastPriceUpdate f p s)))) \<and>
   (readyState s w \<noteq> OPEN \<longrightarrow>
      (registered w (broadcastPriceUpdate f p s) \<longleftrightarrow> registered w s) \<and>
      w \<notin> fst ` set (new_calls s (broadcastPriceUpdate f p s))) \<and>
   (\<not> registered w (broadcastPriceUpdate f p s) \<and>
    run es (broadcastPriceUpdate f p s) = Some s2 \<and> Connection w \<notin> set es \<longrightarrow>
      w \<notin> fst ` set (new_calls s2 (broadcastPriceUpdate f' p' s2)))"
proof (intro conjI impI)
  show targets: "map fst (new_calls s (broadcastPriceUpdate f p s)) = recipients f s"
    by (simp add: new_calls_broadcast send_calls_targets)
  show "registered w (broadcastPriceUpdate f p s) \<longleftrightarrow>
      registered w s \<and>
      (\<forall>m. (w, False, m) \<notin> set (new_calls s (broadcastPriceUpdate f p s)))"
    by (rule broadcast_registered)
  {
    assume "readyState s w \<noteq> OPEN"
    then have "w \<notin> set (recipients f s)" using recipients_registered by blast
    then show no: "w \<notin> fst ` set (new_calls s (broadcastPriceUpdate f p s))"
      using targets by (metis set_map)
    then show "registered w (broadcastPriceUpdate f p s) \<longleftrightarrow> registered w s"
      unfolding broadcast_registered by force
  }
  {
    assume "\<not> registered w (broadcastPriceUpdate f p s) \<and>
      run es (broadcastPriceUpdate f p s) = Some s2 \<and> Connection w \<notin> set es"
    then have "\<not> registered w s2" using run_unregistered by blast
    then have "w \<notin> set (recipients f' s2)" using recipients_registered by blast
    then show "w \<notin> fst ` set (new_calls s2 (broadcastPriceUpdate f' p' s2))"
      by (simp add: new_calls_broadcast send_calls_targets flip: set_map)
  }
qed

theorem broadcast_keeps_closed_counterexample:
  "readyState closed_subscriber 1 = CLOSED \<and>
   SOL_FEED_ID \<in> feeds_of 1 closed_subscriber \<and>
   registered 1 (broadcastPriceUpdate SOL_FEED_ID (JFinite 200) closed_subscriber)"
  by (simp add: closed_subscriber_def sol_subscriber_def server_start_def registered_def
      feeds_of_def broadcastPriceUpdate_def new_Date_def)

theorem broadcast_prunes_failed_sends_witness:
  "new_calls two_subscribers (broadcastPriceUpdate SOL_FEED_ID (JFinite 200) two_subscribers) =
     [(1, False, PriceUpdate 3 [(SOL_FEED_ID, ''200'')]),
      (2, True, PriceUpdate 3 [(SOL_FEED_ID, ''200'')])] \<and>
   \<not> registered 1 (broadcastPriceUpdate SOL_FEED_ID (JFinite 200) two_subscribers) \<and>
   registered 2 (broadcastPriceUpdate SOL_FEED_ID (JFinite 200) two_subscribers) \<and>
   1 \<notin> fst ` set (new_calls
          (the (run [Tick (JFinite 200)]
                  (broadcastPriceUpdate SOL_FEED_ID (JFinite 200) two_subscribers)))
          (broadcastPriceUpdate (JFinite 7) (JFinite 200)
             (the (run [Tick (JFinite 200)]
                     (broadcastPriceUpdate SOL_FEED_ID (JFinite 200) two_subscribers)))))"
proof -
  define s1 where "s1 = broadcastPriceUpdate SOL_FEED_ID (JFinite 200) two_subscribers"
  define s2 where "s2 = the (run [Tick (JFinite 200)] s1)"
  have calls: "new_calls two_subscribers s1 =
     [(1, False, PriceUpdate 3 [(SOL_FEED_ID, ''200'')]),
      (2, True, PriceUpdate 3 [(SOL_FEED_ID, ''200'')])]"
    unfolding s1_def
    by (simp add: new_calls_def broadcastPriceUpdate_def new_Date_def ws_send_def Let_def
        two_subscribers_def server_start_def sample_toString_def)
  have reg: "registered 1 two_subscribers" "registered 2 two_subscribers"
    by (simp_all add: registered_def two_subscribers_def server_start_def)
  have r: "run [Tick (JFinite 200)] s1 = Some s2"
    by (simp add: s2_def)
  note t1 = broadcast_prunes_failed_sends[of two_subscribers SOL_FEED_ID "JFinite 200" 1
      "[Tick (JFinite 200)]" s2 "JFinite 7" "JFinite 200", folded s1_def]
  note t2 = broadcast_prunes_failed_sends[of two_subscribers SOL_FEED_ID "JFinite 200" 2,
      folded s1_def]
  have a: "\<not> registered 1 s1" using t1 reg(1) calls by simp
  have b: "registered 2 s1" using t2 reg(2) calls by simp
  have c: "1 \<notin> fst ` set (new_calls s2 (broadcastPriceUpdate (JFinite 7) (JFinite 200) s2))"
    using t1 a r by simp
  show ?thesis using calls a b c unfolding s2_def s1_def by blast
qed

section \<open>The keys of the registry stay distinct\<close>

text \<open>
  A \<^verbatim>\<open>Map\<close> has one entry per key: the registry of every state the server reaches from its
  start has distinct keys. Three runs of the examples follow: how a subscribed connection
  whose socket is closing comes about, what a message type that has no string does, and what
  a \<^verbatim>\<open>null\<close> element does to a \<^verbatim>\<open>subscribe\<close> request.
\<close>

lemma keys_Map_set:
  "map fst (Map_set k v es) = (if k \<in> set (map fst es) then map fst es else map fst es @ [k])"
  by (induction es) (auto simp: rev_image_eqI split: if_splits)

lemma step_distinct_keys:
  assumes "step e s = Some s'" and "distinct (map fst (subscriptions s))"
  shows "distinct (map fst (subscriptions s'))"
proof (cases e)
  case (Connection w)
  then have "s' = snd (on_connection w s)" using assms(1) by (auto dest: caught_Some)
  then show ?thesis using assms(2) by (simp add: on_connection_spec keys_Map_set)
next
  case (Message w parsed)
  then have "s' = snd (on_message w parsed s)" using assms(1) by (auto dest: caught_Some)
  then show ?thesis using assms(2) on_message_registry[of w parsed s]
    by (auto simp: keys_Map_modify)
next
  case (Close w)
  then show ?thesis using assms by (auto simp: on_close_def Map_delete_filter distinct_map_filter)
next
  case (SocketError w)
  then show ?thesis using assms by (auto simp: on_error_def Map_delete_filter distinct_map_filter)
next
  case (Tick p)
  then show ?thesis using assms by (auto simp: tick_spec distinct_map_filter)
next
  case (Transport w r)
  then show ?thesis using assms by auto
qed

lemma run_distinct_keys:
  "run es s = Some s' \<Longrightarrow> distinct (map fst (subscriptions s)) \<Longrightarrow>
   distinct (map fst (subscriptions s'))"
proof (induction es arbitrary: s)
  case Nil
  then show ?case by simp
next
  case (Cons e es)
  then obtain s1 where "step e s = Some s1" "run es s1 = Some s'"
    by (auto split: option.splits)
  then show ?case using Cons.IH Cons.prems(2) step_distinct_keys by blast
qed

lemma reachable_distinct_keys:
  "run es server_start = Some s \<Longrightarrow> distinct (map fst (subscriptions s))"
  using run_distinct_keys[of es server_start s] by (simp add: server_start_def)

lemma closing_subscriber_reached:
  "\<exists>s. run [Connection 1, Message 1 (Some (subscribe_request JNull [feed_entry SOL_FEED_ID])),
             Transport 1 CLOSING] server_start = Some s \<and>
       registered 1 s \<and> feeds_of 1 s = {SOL_FEED_ID} \<and> readyState s 1 = CLOSING"
  by (simp add: on_message_def handleClientMessage_def handleSubscription_def feeds_add_def
      registered_def feeds_of_def run_defs example_defs)

lemma unknown_type_template_throws:
  "handleClientMessage 1 (JObj [(''type'', JObj [(''toString'', JNum (JFinite 1))])]) one_client =
     (Inl TypeError, one_client) \<and>
   new_calls one_client
     (snd (on_message 1 (Some (JObj [(''type'', JObj [(''toString'', JNum (JFinite 1))])]))
        one_client)) = [(1, True, Error InvalidJSONFormat)]"
  by (simp add: on_message_def handleClientMessage_def new_calls_def run_defs example_defs)

lemma subscribe_null_element_aborts:
  "on_message 1
     (Some (subscribe_request JNull [feed_entry SOL_FEED_ID, JNull, feed_entry (JFinite 7)]))
     one_client =
   (Inr (),
    one_client\<lparr>subscriptions :=
        [(1, \<lparr>clientId = 1, subscribedFeeds = {SOL_FEED_ID}, connectedAt = 0\<rparr>)],
      dateCalls := 2,
      sendLog := [(1, True, Connected 1),
                  (1, True, PriceUpdate 1 [(SOL_FEED_ID, ''245.67'')]),
                  (1, True, Error InvalidJSONFormat)]\<rparr>)"
  by (simp add: on_message_def handleClientMessage_def handleSubscription_def feeds_add_def
      run_defs example_defs)

end
